theory Spec2Isabelle
  imports Complex_Main "HOL-Library.Log_Nat"
begin

section \<open>Python values used by \<open>plot_profiles.py\<close>\<close>

text \<open>
  A Python \<open>float\<close> (binary64) is the rational number it denotes, or one of the three
  non-finite values. A product of floats is rounded to the nearest binary64 number, ties
  to even (\<open>round_binary64\<close> below). Comparisons follow IEEE 754: \<open>nan\<close> differs from
  everything, itself included.
\<close>

datatype pyfloat = Finite rat | NaN | PosInf | NegInf

datatype py_error = ValueError | OverflowError | IndexError

text \<open>\<open>a != b\<close> on floats.\<close>

fun float_ne :: "pyfloat \<Rightarrow> pyfloat \<Rightarrow> bool" where
  "float_ne NaN _ = True"
| "float_ne _ NaN = True"
| "float_ne a b = (a \<noteq> b)"

text \<open>
  \<open>int(x)\<close> truncates a finite float towards zero; \<open>int(nan)\<close> raises \<open>ValueError\<close> and
  \<open>int(inf)\<close> raises \<open>OverflowError\<close>.
\<close>

definition trunc_rat :: "rat \<Rightarrow> int" where
  "trunc_rat q = (if 0 \<le> q then \<lfloor>q\<rfloor> else \<lceil>q\<rceil>)"

fun py_int :: "pyfloat \<Rightarrow> py_error + int" where
  "py_int (Finite q) = Inr (trunc_rat q)"
| "py_int NaN = Inl ValueError"
| "py_int PosInf = Inl OverflowError"
| "py_int NegInf = Inl OverflowError"

subsection \<open>Rounding to binary64\<close>

text \<open>
  Binary64 numbers are the multiples of \<open>2 ^ e / 2 ^ 1074\<close> of magnitude below
  \<open>2 ^ (e + 53) / 2 ^ 1074\<close>, for \<open>e\<close> from 0 (the subnormal numbers and the lowest binade)
  upwards. \<open>binary64_exponent x\<close> is the least such \<open>e\<close> whose range holds \<open>x\<close>: the number of
  bits of \<open>\<lfloor>\<bar>x\<bar> * 2 ^ 1074\<rfloor>\<close> beyond 53.
\<close>

definition binary64_scale :: rat where
  "binary64_scale = 2 ^ 1074"

definition binary64_exponent :: "rat \<Rightarrow> nat" where
  "binary64_exponent x = nat (bitlen \<lfloor>\<bar>x\<bar> * binary64_scale\<rfloor> - 53)"

definition binary64_ulp :: "rat \<Rightarrow> rat" where
  "binary64_ulp x = 2 ^ binary64_exponent x / binary64_scale"

text \<open>Rounding to the nearest integer, ties to even.\<close>

definition round_half_even :: "rat \<Rightarrow> int" where
  "round_half_even q =
     (let f = \<lfloor>q\<rfloor>; r = q - of_int f
      in if r < 1 / 2 then f
         else if 1 / 2 < r then f + 1
         else if even f then f else f + 1)"

text \<open>
  The exact result \<open>x\<close> of an operation, rounded to the nearest multiple of the spacing at
  \<open>x\<close>, ties to the even multiple; a result of magnitude \<open>2 ^ 1024\<close> or more overflows to an
  infinity.
\<close>

definition round_binary64 :: "rat \<Rightarrow> rat" where
  "round_binary64 x = of_int (round_half_even (x / binary64_ulp x)) * binary64_ulp x"

definition to_float :: "rat \<Rightarrow> pyfloat" where
  "to_float r =
     (if 2 ^ 1024 \<le> r then PosInf else if r \<le> - (2 ^ 1024) then NegInf else Finite r)"

definition is_binary64 :: "rat \<Rightarrow> bool" where
  "is_binary64 q = (round_binary64 q = q \<and> \<bar>q\<bar> < 2 ^ 1024)"

subsection \<open>\<open>datetime\<close> and \<open>timedelta\<close>\<close>

text \<open>
  A naive \<open>datetime\<close> is the number of microseconds since 0001-01-01T00:00:00 in the
  proleptic Gregorian calendar; comparison and addition of a \<open>timedelta\<close> are those of
  this count, as in CPython. A \<open>timedelta\<close> is a number of microseconds.
\<close>

type_synonym datetime = int
type_synonym timedelta = int

definition us_per_day :: int where
  "us_per_day = 86400000000"

text \<open>Days before January 1 of \<open>year\<close> (CPython's \<open>days_before_year\<close>).\<close>

definition days_before_year :: "int \<Rightarrow> int" where
  "days_before_year year =
     (let y = year - 1 in y * 365 + y div 4 - y div 100 + y div 400)"

text \<open>The first instant after \<open>datetime.max\<close>: 10000-01-01T00:00:00.\<close>

definition datetime_end :: int where
  "datetime_end = days_before_year 10000 * us_per_day"

text \<open>
  \<open>datetime.datetime(year, 1, 1)\<close>: the year is converted to a C \<open>int\<close>
  (\<open>OverflowError\<close> when it does not fit) and must lie in \<open>MINYEAR..MAXYEAR\<close>, that is
  \<open>1..9999\<close> (\<open>ValueError\<close> otherwise).
\<close>

definition datetime_jan1 :: "int \<Rightarrow> py_error + datetime" where
  "datetime_jan1 year =
     (if year < - 2147483648 \<or> 2147483647 < year then Inl OverflowError
      else if year < 1 \<or> 9999 < year then Inl ValueError
      else Inr (days_before_year year * us_per_day))"

text \<open>C's \<open>round\<close>: to the nearest integer, ties away from zero.\<close>

definition round_half_away :: "rat \<Rightarrow> int" where
  "round_half_away q = (if 0 \<le> q then \<lfloor>q + 1 / 2\<rfloor> else \<lceil>q - 1 / 2\<rceil>)"

text \<open>
  The end of CPython's \<open>delta_new\<close>: the leftover fraction of a microsecond is rounded to
  a whole number; exactly halfway, the parity of the microseconds \<open>x\<close> counted so far
  decides, so that the sum is even.
\<close>

definition round_leftover :: "int \<Rightarrow> rat \<Rightarrow> int" where
  "round_leftover x leftover_us =
     (let whole_us = round_half_away leftover_us
      in if \<bar>of_int whole_us - leftover_us\<bar> = 1 / 2
         then (let x_is_odd = (if odd x then 1 else 0)
               in 2 * round_half_away ((leftover_us + of_int x_is_odd) * (1 / 2)) - x_is_odd)
         else whole_us)"

text \<open>
  \<open>datetime.timedelta(days=d)\<close> for a float \<open>d\<close>, in microseconds, as CPython's \<open>accum\<close>
  computes it: \<open>d\<close> is split by \<open>modf\<close> into its integer and fractional part; whole days
  are converted exactly; the fractional day is multiplied by 86400000000 in binary64 and
  split again; the leftover is rounded as above. \<open>OverflowError\<close> when the result is not
  within 999999999 days or \<open>d\<close> is infinite, \<open>ValueError\<close> when \<open>d\<close> is \<open>nan\<close>.
\<close>

fun timedelta_days :: "pyfloat \<Rightarrow> py_error + timedelta" where
  "timedelta_days (Finite d) =
     (let intpart = trunc_rat d;
          fracpart = d - of_int intpart;
          dnum = round_binary64 (of_int us_per_day * fracpart);
          x = intpart * us_per_day + trunc_rat dnum;
          leftover_us = dnum - of_int (trunc_rat dnum);
          us = x + round_leftover x leftover_us
      in if us < - 999999999 * us_per_day \<or> 1000000000 * us_per_day \<le> us
         then Inl OverflowError else Inr us)"
| "timedelta_days NaN = Inl ValueError"
| "timedelta_days PosInf = Inl OverflowError"
| "timedelta_days NegInf = Inl OverflowError"

text \<open>\<open>dt + delta\<close>: \<open>OverflowError\<close> when the sum leaves \<open>datetime.min..datetime.max\<close>.\<close>

definition datetime_add :: "datetime \<Rightarrow> timedelta \<Rightarrow> py_error + datetime" where
  "datetime_add dt delta =
     (let s = dt + delta
      in if s < 0 \<or> datetime_end \<le> s then Inl OverflowError else Inr s)"

section \<open>Time-Decoder: \<open>fractional_year_to_datetime\<close>\<close>

definition is_leap :: "int \<Rightarrow> bool" where
  "is_leap year = (year mod 4 = 0 \<and> (year mod 100 \<noteq> 0 \<or> year mod 400 = 0))"

definition days_in :: "int \<Rightarrow> int" where
  "days_in year = (if is_leap year then 366 else 365)"

text \<open>
  \<open>year_frac - year\<close>, for the integer part \<open>year\<close> of \<open>year_frac\<close>: the difference is
  exact, since the fractional part of a binary64 number is a binary64 number.
\<close>

fun float_sub_int :: "pyfloat \<Rightarrow> int \<Rightarrow> pyfloat" where
  "float_sub_int (Finite q) n = Finite (q - of_int n)"
| "float_sub_int x n = x"

text \<open>
  \<open>frac * days\<close>, a float times an \<open>int\<close> that converts exactly (365 or 366): the product
  rounded to binary64.
\<close>

fun float_mul_int :: "pyfloat \<Rightarrow> int \<Rightarrow> pyfloat" where
  "float_mul_int (Finite q) n = to_float (round_binary64 (q * of_int n))"
| "float_mul_int NaN n = NaN"
| "float_mul_int PosInf n = (if 0 < n then PosInf else if n < 0 then NegInf else NaN)"
| "float_mul_int NegInf n = (if 0 < n then NegInf else if n < 0 then PosInf else NaN)"

definition fractional_year_to_datetime :: "pyfloat \<Rightarrow> py_error + datetime" where
  "fractional_year_to_datetime year_frac =
     (case py_int year_frac of
        Inl e \<Rightarrow> Inl e
      | Inr year \<Rightarrow>
          (let frac = float_sub_int year_frac year;
               days = days_in year
           in case datetime_jan1 year of
                Inl e \<Rightarrow> Inl e
              | Inr d0 \<Rightarrow>
                  (case timedelta_days (float_mul_int frac days) of
                     Inl e \<Rightarrow> Inl e
                   | Inr delta \<Rightarrow> datetime_add d0 delta)))"

section \<open>The dataset read by \<open>main\<close>\<close>

text \<open>
  What \<open>xr.open_dataset\<close> hands to \<open>main\<close>: the dimension sizes \<open>ni\<close> (observations),
  \<open>nj\<close> (vertical levels) and \<open>nk\<close> (time slots), the values of the variables the script
  reads, as nested lists in C order, and the \<open>attrs\<close> dictionaries it queries.
\<close>

record dataset =
  ni :: nat
  nj :: nat
  nk :: nat
  time_values :: "pyfloat list"
  time_attrs :: "string \<rightharpoonup> pyfloat"
  si_values :: "int list list"
  si_attrs :: "string \<rightharpoonup> int"
  sj_values :: "int list list"
  sj_attrs :: "string \<rightharpoonup> int"
  sst_values :: "pyfloat list list list"
  press_values :: "pyfloat list list list"
  lon2_values :: "pyfloat list list"
  lat2_values :: "pyfloat list list"

text \<open>An \<open>n\<close> by \<open>m\<close> array as a list of \<open>n\<close> rows of length \<open>m\<close>.\<close>

definition has_shape :: "nat \<Rightarrow> nat \<Rightarrow> 'a list list \<Rightarrow> bool" where
  "has_shape n m a = (length a = n \<and> (\<forall>row \<in> set a. length row = m))"

text \<open>
  The shapes the script's comments give: \<open>time\<close> is \<open>(nk)\<close>, the storm-grid indices
  are \<open>(ni, nk)\<close>, temperature and pressure are \<open>(ni, nj, nk)\<close>, and the two geographic
  grids are rectangular of one shape.
\<close>

definition wf_dataset :: "dataset \<Rightarrow> bool" where
  "wf_dataset ds =
     (length (time_values ds) = nk ds \<and>
      has_shape (ni ds) (nk ds) (si_values ds) \<and>
      has_shape (ni ds) (nk ds) (sj_values ds) \<and>
      length (sst_values ds) = ni ds \<and>
      (\<forall>p \<in> set (sst_values ds). has_shape (nj ds) (nk ds) p) \<and>
      length (press_values ds) = ni ds \<and>
      (\<forall>p \<in> set (press_values ds). has_shape (nj ds) (nk ds) p) \<and>
      length (lat2_values ds) = length (lon2_values ds) \<and>
      (\<forall>row \<in> set (lon2_values ds @ lat2_values ds).
         length row = length (hd (lon2_values ds))))"

text \<open>The attribute key the script looks up with \<open>attrs.get\<close>; an absent key gives \<open>None\<close>.\<close>

definition fill_key :: string where
  "fill_key = ''_Fillvalue''"

definition attrs_get :: "(string \<rightharpoonup> 'a) \<Rightarrow> string \<Rightarrow> 'a option" where
  "attrs_get attrs key = attrs key"

text \<open>A computation over a list that stops at the first exception.\<close>

fun collect :: "('a \<Rightarrow> py_error + 'b) \<Rightarrow> 'a list \<Rightarrow> py_error + 'b list" where
  "collect f [] = Inr []"
| "collect f (x # xs) =
     (case f x of
        Inl e \<Rightarrow> Inl e
      | Inr y \<Rightarrow> (case collect f xs of Inl e \<Rightarrow> Inl e | Inr ys \<Rightarrow> Inr (y # ys)))"

text \<open>\<open>xs[i]\<close> for a list and an index that is not negative.\<close>

definition py_nth :: "'a list \<Rightarrow> nat \<Rightarrow> py_error + 'a" where
  "py_nth xs i = (if i < length xs then Inr (xs ! i) else Inl IndexError)"

text \<open>
  An index into a numpy axis of length \<open>n\<close>: negative indices count from the end,
  anything outside \<open>-n..n-1\<close> raises \<open>IndexError\<close>.
\<close>

definition norm_index :: "nat \<Rightarrow> int \<Rightarrow> py_error + nat" where
  "norm_index n i =
     (if 0 \<le> i \<and> i < int n then Inr (nat i)
      else if - int n \<le> i \<and> i < 0 then Inr (nat (i + int n))
      else Inl IndexError)"

definition np_get2 :: "'a list list \<Rightarrow> int \<Rightarrow> int \<Rightarrow> py_error + 'a" where
  "np_get2 a r c =
     (case norm_index (length a) r of
        Inl e \<Rightarrow> Inl e
      | Inr r' \<Rightarrow>
          (case norm_index (length (a ! r')) c of
             Inl e \<Rightarrow> Inl e
           | Inr c' \<Rightarrow> Inr (a ! r' ! c')))"

section \<open>Step 1 of \<open>main\<close>: the list \<open>times\<close>\<close>

definition decode_time :: "pyfloat option \<Rightarrow> pyfloat \<Rightarrow> py_error + datetime option" where
  "decode_time tfill tv =
     (if (case tfill of None \<Rightarrow> True | Some f \<Rightarrow> float_ne tv f)
      then (case fractional_year_to_datetime tv of Inl e \<Rightarrow> Inl e | Inr d \<Rightarrow> Inr (Some d))
      else Inr None)"

definition get_tfill :: "dataset \<Rightarrow> pyfloat option" where
  "get_tfill ds = attrs_get (time_attrs ds) fill_key"

definition decode_times :: "dataset \<Rightarrow> py_error + datetime option list" where
  "decode_times ds = collect (decode_time (get_tfill ds)) (time_values ds)"

section \<open>Step 2 of \<open>main\<close>: the fill values \<open>fill_i\<close> and \<open>fill_j\<close>\<close>

definition get_fill_i :: "dataset \<Rightarrow> int option" where
  "get_fill_i ds = attrs_get (si_attrs ds) fill_key"

definition get_fill_j :: "dataset \<Rightarrow> int option" where
  "get_fill_j ds = attrs_get (sj_attrs ds) fill_key"

section \<open>Collocation-Selector: step 3 of \<open>main\<close>, lines 48 to 51\<close>

text \<open>
  \<open>si != fill_i\<close> on one cell. Against \<open>None\<close> numpy compares elementwise and every cell
  differs. The mask combines the two arrays cell by cell; they have one shape, the
  dimensions \<open>ni\<close> and \<open>nk\<close> of the file.
\<close>

definition ne_fill :: "int \<Rightarrow> int option \<Rightarrow> bool" where
  "ne_fill v fill = (case fill of None \<Rightarrow> True | Some f \<Rightarrow> v \<noteq> f)"

definition valid_mask ::
  "int list list \<Rightarrow> int list list \<Rightarrow> int option \<Rightarrow> int option \<Rightarrow> bool list list" where
  "valid_mask si sj fi fj =
     map2 (\<lambda>row_i row_j. map2 (\<lambda>a b. ne_fill a fi \<and> ne_fill b fj) row_i row_j) si sj"

text \<open>\<open>mask.sum(axis=0)\<close> for a mask with \<open>m\<close> columns.\<close>

definition column_sums :: "nat \<Rightarrow> bool list list \<Rightarrow> nat list" where
  "column_sums m vmask = map (\<lambda>k. length (filter (\<lambda>row. row ! k) vmask)) [0..<m]"

text \<open>
  \<open>counts.argmax()\<close>: the index of the first maximum; \<open>ValueError\<close> on an empty array.
\<close>

fun argmax_from :: "nat \<Rightarrow> nat \<Rightarrow> nat \<Rightarrow> nat list \<Rightarrow> nat" where
  "argmax_from best v i [] = best"
| "argmax_from best v i (x # xs) =
     (if v < x then argmax_from i x (Suc i) xs else argmax_from best v (Suc i) xs)"

definition argmax :: "nat list \<Rightarrow> py_error + nat" where
  "argmax xs = (case xs of [] \<Rightarrow> Inl ValueError | x # rest \<Rightarrow> Inr (argmax_from 0 x 1 rest))"

text \<open>\<open>np.where(col)[0]\<close>: the positions of \<open>True\<close>, ascending.\<close>

definition where_true :: "bool list \<Rightarrow> nat list" where
  "where_true col = filter (\<lambda>i. col ! i) [0..<length col]"

definition select ::
  "nat \<Rightarrow> int list list \<Rightarrow> int list list \<Rightarrow> int option \<Rightarrow> int option
     \<Rightarrow> py_error + nat \<times> nat list" where
  "select m si sj fi fj =
     (let vmask = valid_mask si sj fi fj;
          counts = column_sums m vmask
      in case argmax counts of
           Inl e \<Rightarrow> Inl e
         | Inr k_max \<Rightarrow> Inr (k_max, where_true (map (\<lambda>row. row ! k_max) vmask)))"

section \<open>Coordinate-Resolver and Profile-Assembler: the loop of step 5, lines 61 to 69\<close>

definition resolve ::
  "int list list \<Rightarrow> int list list \<Rightarrow> 'a list list \<Rightarrow> 'a list list \<Rightarrow> nat \<Rightarrow> nat
     \<Rightarrow> py_error + 'a \<times> 'a" where
  "resolve si sj lon2 lat2 slot k_max =
     (case np_get2 si (int slot) (int k_max) of
        Inl e \<Rightarrow> Inl e
      | Inr i_idx \<Rightarrow>
          (case np_get2 sj (int slot) (int k_max) of
             Inl e \<Rightarrow> Inl e
           | Inr j_idx \<Rightarrow>
               (case np_get2 lon2 j_idx i_idx of
                  Inl e \<Rightarrow> Inl e
                | Inr lon \<Rightarrow>
                    (case np_get2 lat2 j_idx i_idx of
                       Inl e \<Rightarrow> Inl e
                     | Inr lat \<Rightarrow> Inr (lon, lat)))))"

text \<open>
  \<open>da.isel(ni=slot, nk=k_max).values\<close> on an array of dimensions \<open>(ni, nj, nk)\<close>: the
  values along \<open>nj\<close>; \<open>IndexError\<close> when an index is out of bounds.
\<close>

definition isel_ni_nk :: "nat \<Rightarrow> nat \<Rightarrow> 'a list list list \<Rightarrow> nat \<Rightarrow> nat \<Rightarrow> py_error + 'a list" where
  "isel_ni_nk n m a slot k_max =
     (if slot < n \<and> k_max < m then Inr (map (\<lambda>level. level ! k_max) (a ! slot))
      else Inl IndexError)"

text \<open>One call of \<open>ax.plot(temp_profile, plev_profile, label=...)\<close>.\<close>

record profile =
  temp_profile :: "pyfloat list"
  plev_profile :: "pyfloat list"
  label :: string

text \<open>
  The loop body. \<open>fmt2\<close> is Python's \<open>format(x, '.2f')\<close>, a parameter of the model.
\<close>

definition plot_one ::
  "(pyfloat \<Rightarrow> string) \<Rightarrow> dataset \<Rightarrow> nat \<Rightarrow> nat \<Rightarrow> py_error + profile" where
  "plot_one fmt2 ds k_max slot =
     (case isel_ni_nk (ni ds) (nk ds) (sst_values ds) slot k_max of
        Inl e \<Rightarrow> Inl e
      | Inr temp \<Rightarrow>
          (case isel_ni_nk (ni ds) (nk ds) (press_values ds) slot k_max of
             Inl e \<Rightarrow> Inl e
           | Inr plev \<Rightarrow>
               (case resolve (si_values ds) (sj_values ds) (lon2_values ds) (lat2_values ds)
                       slot k_max of
                  Inl e \<Rightarrow> Inl e
                | Inr (lon, lat) \<Rightarrow>
                    Inr \<lparr>temp_profile = temp, plev_profile = plev,
                         label = fmt2 lon @ '','' @ fmt2 lat\<rparr>)))"

definition assemble ::
  "(pyfloat \<Rightarrow> string) \<Rightarrow> dataset \<Rightarrow> nat \<Rightarrow> nat list \<Rightarrow> py_error + profile list" where
  "assemble fmt2 ds k_max slots = collect (plot_one fmt2 ds k_max) slots"

section \<open>The title and \<open>main\<close>\<close>

text \<open>\<open>str(n)\<close> for a length.\<close>

fun str_nat :: "nat \<Rightarrow> string" where
  "str_nat n =
     (if n < 10 then [''0123456789'' ! n]
      else str_nat (n div 10) @ [''0123456789'' ! (n mod 10)])"

text \<open>
  \<open>times[k_max].strftime("%Y-%m-%d") if times[k_max] else "unknown_date"\<close>; a \<open>datetime\<close>
  is always true. \<open>strftime\<close> is the platform's, a parameter of the model.
\<close>

definition date_str :: "(datetime \<Rightarrow> string) \<Rightarrow> datetime option \<Rightarrow> string" where
  "date_str strftime t = (case t of None \<Rightarrow> ''unknown_date'' | Some d \<Rightarrow> strftime d)"

definition make_title :: "string \<Rightarrow> nat \<Rightarrow> string \<Rightarrow> string" where
  "make_title prefix n date = prefix @ '': '' @ str_nat n @ '' profiles on '' @ date"

text \<open>What \<open>main\<close> leaves behind: the curves plotted, the title, the files written.\<close>

record figure =
  curves :: "profile list"
  title :: string
  saved :: "string list"

definition main ::
  "(pyfloat \<Rightarrow> string) \<Rightarrow> (datetime \<Rightarrow> string) \<Rightarrow> string \<Rightarrow> dataset \<Rightarrow> py_error + figure" where
  "main fmt2 strftime prefix ds =
     (case decode_times ds of
        Inl e \<Rightarrow> Inl e
      | Inr times_list \<Rightarrow>
          (case select (nk ds) (si_values ds) (sj_values ds) (get_fill_i ds) (get_fill_j ds) of
             Inl e \<Rightarrow> Inl e
           | Inr (k_max, slots) \<Rightarrow>
               (case assemble fmt2 ds k_max slots of
                  Inl e \<Rightarrow> Inl e
                | Inr profiles \<Rightarrow>
                    (case py_nth times_list k_max of
                       Inl e \<Rightarrow> Inl e
                     | Inr t \<Rightarrow>
                         Inr \<lparr>curves = profiles,
                              title = make_title prefix (length slots) (date_str strftime t),
                              saved = [prefix @ ''_profiles.pdf'',
                                       prefix @ ''_profiles.png'']\<rparr>))))"

section \<open>Notions used to state the properties\<close>

text \<open>
  The microseconds of \<open>timedelta(days=d)\<close> for \<open>d\<close> that is not negative, in closed form: the
  whole days and the binary64 product for the fractional day, added and rounded half to
  even.
\<close>

definition timedelta_us :: "rat \<Rightarrow> int" where
  "timedelta_us d =
     round_half_even (of_int (\<lfloor>d\<rfloor> * us_per_day)
                        + round_binary64 (of_int us_per_day * (d - of_int \<lfloor>d\<rfloor>)))"

text \<open>
  The microseconds between January 1 of year \<open>y\<close> and the instant \<open>q\<close> is decoded to: the
  binary64 product \<open>frac * days\<close>, converted by \<open>timedelta\<close>.
\<close>

definition offset_us :: "int \<Rightarrow> rat \<Rightarrow> int" where
  "offset_us y q = timedelta_us (round_binary64 ((q - of_int y) * of_int (days_in y)))"

text \<open>The Gregorian rule: divisible by 4, except centuries unless divisible by 400.\<close>

definition gregorian_leap :: "int \<Rightarrow> bool" where
  "gregorian_leap y = (4 dvd y \<and> (\<not> 100 dvd y \<or> 400 dvd y))"

definition negative_or_non_finite :: "pyfloat \<Rightarrow> bool" where
  "negative_or_non_finite x = (case x of Finite q \<Rightarrow> q < 0 | _ \<Rightarrow> True)"

text \<open>
  The validity of a cell as the specification words it, for sentinels \<open>fill_i\<close> and
  \<open>fill_j\<close>, and the number of valid observations of a slot among \<open>n\<close> observations.
\<close>

definition valid_cell ::
  "int list list \<Rightarrow> int list list \<Rightarrow> int \<Rightarrow> int \<Rightarrow> nat \<Rightarrow> nat \<Rightarrow> bool" where
  "valid_cell index_i index_j fill_i fill_j obs slot =
     (index_i ! obs ! slot \<noteq> fill_i \<and> index_j ! obs ! slot \<noteq> fill_j)"

definition valid_count ::
  "nat \<Rightarrow> int list list \<Rightarrow> int list list \<Rightarrow> int \<Rightarrow> int \<Rightarrow> nat \<Rightarrow> nat" where
  "valid_count n index_i index_j fill_i fill_j slot =
     length (filter (\<lambda>obs. valid_cell index_i index_j fill_i fill_j obs slot) [0..<n])"

text \<open>The same with the sentinels as \<open>main\<close> has them, absent or present.\<close>

definition cell_ok ::
  "int list list \<Rightarrow> int list list \<Rightarrow> int option \<Rightarrow> int option \<Rightarrow> nat \<Rightarrow> nat \<Rightarrow> bool" where
  "cell_ok si sj fill_i fill_j obs k =
     (ne_fill (si ! obs ! k) fill_i \<and> ne_fill (sj ! obs ! k) fill_j)"

text \<open>The values of a \<open>(ni, nj, nk)\<close> array along \<open>nj\<close> at one observation and one slot.\<close>

definition level_slice :: "nat \<Rightarrow> 'a list list list \<Rightarrow> nat \<Rightarrow> nat \<Rightarrow> 'a list" where
  "level_slice levels a obs slot = map (\<lambda>level. a ! obs ! level ! slot) [0..<levels]"

section \<open>Example datasets\<close>

text \<open>
  Two observations, two levels, two slots. Observation 0 is collocated at slot 0 with
  storm-grid cell \<open>i = 1\<close>, \<open>j = 0\<close>, observation 1 at slot 1 with cell \<open>i = 0\<close>, \<open>j = 1\<close>;
  the other cells hold the fill value. The time of slot 0 is the fill value.
\<close>

definition scenario_a :: dataset where
  "scenario_a =
     \<lparr>ni = 2, nj = 2, nk = 2,
      time_values = [Finite (- 9999), Finite (4049 / 2)],
      time_attrs = [''_Fillvalue'' \<mapsto> Finite (- 9999)],
      si_values = [[1, - 1], [- 1, 0]],
      si_attrs = [''_Fillvalue'' \<mapsto> - 1],
      sj_values = [[0, - 1], [- 1, 1]],
      sj_attrs = [''_Fillvalue'' \<mapsto> - 1],
      sst_values = [[[Finite 28, Finite 27], [Finite 20, Finite 19]],
                    [[Finite 29, Finite 26], [Finite 21, Finite 18]]],
      press_values = [[[Finite 5, Finite 6], [Finite 50, Finite 60]],
                      [[Finite 7, Finite 8], [Finite 70, Finite 80]]],
      lon2_values = [[Finite 120, Finite 121], [Finite 122, Finite 123]],
      lat2_values = [[Finite 10, Finite 11], [Finite 12, Finite 13]]\<rparr>"

text \<open>The same dataset with every storm-grid index equal to the fill value.\<close>

definition scenario_c :: dataset where
  "scenario_c = scenario_a\<lparr>si_values := [[- 1, - 1], [- 1, - 1]],
                           sj_values := [[- 1, - 1], [- 1, - 1]]\<rparr>"

text \<open>The same dataset with the fill values declared under the key \<open>fill_value\<close>.\<close>

definition scenario_other_key :: dataset where
  "scenario_other_key = scenario_a\<lparr>time_attrs := [''fill_value'' \<mapsto> Finite (- 9999)],
                                   si_attrs := [''fill_value'' \<mapsto> - 1],
                                   sj_attrs := [''fill_value'' \<mapsto> - 1]\<rparr>"


section \<open>Properties of the Time-Decoder\<close>

subsection \<open>Rounding to an integer\<close>

lemma rhe_bounds: "of_int (round_half_even q) \<le> q + 1/2" "q - 1/2 \<le> of_int (round_half_even q)"
  unfolding round_half_even_def Let_def by (auto; linarith)+

lemma rhe_floor_le: "\<lfloor>q\<rfloor> \<le> round_half_even q" "round_half_even q \<le> \<lfloor>q\<rfloor> + 1"
  unfolding round_half_even_def Let_def by auto

lemma rhe_mono:
  assumes "a \<le> b"
  shows "round_half_even a \<le> round_half_even b"
proof (cases "\<lfloor>a\<rfloor> = \<lfloor>b\<rfloor>")
  case True
  with assms show ?thesis
    unfolding round_half_even_def Let_def by auto
next
  case False
  with assms have "\<lfloor>a\<rfloor> + 1 \<le> \<lfloor>b\<rfloor>"
    using floor_mono [of a b] by linarith
  with rhe_floor_le(2) [of a] rhe_floor_le(1) [of b] show ?thesis
    by linarith
qed

lemma rhe_of_int: "round_half_even (of_int n) = n"
  by (simp add: round_half_even_def)

lemma floor_rat_numeral: "\<lfloor>numeral a / numeral b :: rat\<rfloor> = numeral a div numeral b"
  by (metis floor_divide_of_int_eq of_int_numeral)

lemma floor_rat_one_div: "\<lfloor>1 / numeral b :: rat\<rfloor> = 1 div numeral b"
  by (metis floor_divide_of_int_eq of_int_1 of_int_numeral)

subsection \<open>Rounding to binary64\<close>

lemma scale_pos: "0 < binary64_scale"
  by (simp add: binary64_scale_def)

lemma scaled_floor:
  fixes x :: rat
  shows "of_int \<lfloor>\<bar>x\<bar> * binary64_scale\<rfloor> \<le> \<bar>x\<bar> * binary64_scale"
    and "\<bar>x\<bar> * binary64_scale < of_int \<lfloor>\<bar>x\<bar> * binary64_scale\<rfloor> + 1"
    and "0 \<le> \<lfloor>\<bar>x\<bar> * binary64_scale\<rfloor>"
  by (linarith, linarith, simp add: binary64_scale_def)

lemma exponent_upper: "\<bar>x\<bar> * binary64_scale < 2 ^ (binary64_exponent x + 53)"
proof -
  define N where "N = \<lfloor>\<bar>x\<bar> * binary64_scale\<rfloor>"
  have N: "0 \<le> N" "\<bar>x\<bar> * binary64_scale < of_int N + 1"
    unfolding N_def by (rule scaled_floor)+
  have "N < 2 ^ nat (bitlen N)"
  proof (cases "N = 0")
    case True
    then show ?thesis by simp
  next
    case False
    with N(1) have "0 < N" by simp
    then show ?thesis using bitlen_bounds [of N] by simp
  qed
  moreover have "nat (bitlen N) \<le> binary64_exponent x + 53"
    unfolding binary64_exponent_def N_def [symmetric] by linarith
  then have "(2::int) ^ nat (bitlen N) \<le> 2 ^ (binary64_exponent x + 53)"
    by (intro power_increasing) simp_all
  ultimately have "N + 1 \<le> 2 ^ (binary64_exponent x + 53)"
    by linarith
  then have "(of_int (N + 1) :: rat) \<le> of_int (2 ^ (binary64_exponent x + 53))"
    by (simp only: of_int_le_iff)
  with N(2) show ?thesis by simp
qed

lemma exponent_lower:
  assumes "binary64_exponent x \<noteq> 0"
  shows "2 ^ (binary64_exponent x + 52) \<le> \<bar>x\<bar> * binary64_scale"
proof -
  define N where "N = \<lfloor>\<bar>x\<bar> * binary64_scale\<rfloor>"
  have N: "of_int N \<le> \<bar>x\<bar> * binary64_scale"
    unfolding N_def by (rule scaled_floor)
  from assms have b: "53 < bitlen N"
    unfolding binary64_exponent_def N_def [symmetric] by linarith
  then have "0 < N"
    using bitlen_eq_zero_iff [of N] by (cases "0 < N") auto
  then have "2 ^ nat (bitlen N - 1) \<le> N"
    using bitlen_bounds [of N] by simp
  moreover have "nat (bitlen N - 1) = binary64_exponent x + 52"
    unfolding binary64_exponent_def N_def [symmetric] using b by linarith
  ultimately have "2 ^ (binary64_exponent x + 52) \<le> N"
    by simp
  then have "(of_int (2 ^ (binary64_exponent x + 52)) :: rat) \<le> of_int N"
    by (simp only: of_int_le_iff)
  then have "(2::rat) ^ (binary64_exponent x + 52) \<le> of_int N"
    by simp
  with N show ?thesis by (rule order_trans [rotated])
qed

lemma exponent_mono:
  assumes "\<bar>x\<bar> \<le> \<bar>y\<bar>"
  shows "binary64_exponent x \<le> binary64_exponent y"
proof (rule ccontr)
  assume "\<not> binary64_exponent x \<le> binary64_exponent y"
  then have lt: "binary64_exponent y + 53 \<le> binary64_exponent x + 52" and "binary64_exponent x \<noteq> 0"
    by simp_all
  then have "2 ^ (binary64_exponent x + 52) \<le> \<bar>x\<bar> * binary64_scale"
    by (intro exponent_lower)
  also have "\<dots> \<le> \<bar>y\<bar> * binary64_scale"
    using assms scale_pos by (intro mult_right_mono) simp_all
  also have "\<dots> < 2 ^ (binary64_exponent y + 53)"
    by (rule exponent_upper)
  finally have "(2::rat) ^ (binary64_exponent x + 52) < 2 ^ (binary64_exponent y + 53)" .
  then have "binary64_exponent x + 52 < binary64_exponent y + 53"
    by (simp only: power_strict_increasing_iff [of "2::rat"] one_less_numeral_iff semiring_norm)
  with lt show False by simp
qed

lemma pow2_less_cancel: "(2::rat) ^ a < 2 ^ b \<Longrightarrow> a < b"
  by (simp only: power_strict_increasing_iff [of "2::rat"] one_less_numeral_iff semiring_norm)

lemma exponent_unique:
  assumes "2 ^ (e + 52) \<le> \<bar>x\<bar> * binary64_scale" "\<bar>x\<bar> * binary64_scale < 2 ^ (e + 53)"
  shows "binary64_exponent x = e"
proof -
  note assms(1)
  also note exponent_upper [of x]
  finally have 1: "e + 52 < binary64_exponent x + 53"
    by (rule pow2_less_cancel)
  have "binary64_exponent x \<le> e"
  proof (cases "binary64_exponent x = 0")
    case True
    then show ?thesis by simp
  next
    case False
    then have "(2::rat) ^ (binary64_exponent x + 52) \<le> \<bar>x\<bar> * binary64_scale"
      by (rule exponent_lower)
    also note assms(2)
    finally have "binary64_exponent x + 52 < e + 53"
      by (rule pow2_less_cancel)
    then show ?thesis by simp
  qed
  with 1 show ?thesis by simp
qed

lemma ulp_pos: "0 < binary64_ulp x"
  by (simp add: binary64_ulp_def scale_pos)

lemma fl_0: "round_binary64 0 = 0"
  by (simp add: round_binary64_def round_half_even_def)

lemma fl_scaled:
  "round_binary64 x = of_int (round_half_even (x / binary64_ulp x)) * binary64_ulp x"
  by (simp add: round_binary64_def)

lemma ratio_upper: "x / binary64_ulp x < 2 ^ 53"
proof -
  have "x * binary64_scale \<le> \<bar>x\<bar> * binary64_scale"
    using scale_pos by (intro mult_right_mono) simp_all
  also have "\<dots> < 2 ^ (binary64_exponent x + 53)"
    by (rule exponent_upper)
  also have "\<dots> = 2 ^ 53 * 2 ^ binary64_exponent x"
    by (simp only: power_add mult.commute)
  finally have "x * binary64_scale / 2 ^ binary64_exponent x < 2 ^ 53"
    by (simp add: pos_divide_less_eq)
  then show ?thesis
    by (simp add: binary64_ulp_def)
qed

lemma ratio_lower:
  assumes "0 \<le> x" "binary64_exponent x \<noteq> 0"
  shows "2 ^ 52 \<le> x / binary64_ulp x"
proof -
  have "2 ^ 52 * 2 ^ binary64_exponent x = (2::rat) ^ (binary64_exponent x + 52)"
    by (simp only: power_add mult.commute)
  also have "\<dots> \<le> \<bar>x\<bar> * binary64_scale"
    using assms(2) by (rule exponent_lower)
  also have "\<dots> = x * binary64_scale"
    using assms(1) by simp
  finally have "2 ^ 52 \<le> x * binary64_scale / 2 ^ binary64_exponent x"
    by (simp add: pos_le_divide_eq)
  then show ?thesis
    by (simp add: binary64_ulp_def)
qed

lemma fl_upper: "round_binary64 x \<le> 2 ^ 53 * binary64_ulp x"
proof -
  have "x / binary64_ulp x \<le> of_int (2 ^ 53)"
    using ratio_upper [of x] by simp
  then have "round_half_even (x / binary64_ulp x) \<le> round_half_even (of_int (2 ^ 53))"
    by (rule rhe_mono)
  then have "round_half_even (x / binary64_ulp x) \<le> 2 ^ 53"
    by (simp only: rhe_of_int)
  then have "(of_int (round_half_even (x / binary64_ulp x)) :: rat) \<le> of_int (2 ^ 53)"
    by (simp only: of_int_le_iff)
  then have "of_int (round_half_even (x / binary64_ulp x)) * binary64_ulp x
               \<le> of_int (2 ^ 53) * binary64_ulp x"
    using ulp_pos [of x] by (intro mult_right_mono) simp_all
  then show ?thesis
    by (simp add: fl_scaled)
qed

lemma fl_lower:
  assumes "0 \<le> x" "binary64_exponent x \<noteq> 0"
  shows "2 ^ 52 * binary64_ulp x \<le> round_binary64 x"
proof -
  have "of_int (2 ^ 52) \<le> x / binary64_ulp x"
    using ratio_lower [OF assms] by simp
  then have "round_half_even (of_int (2 ^ 52)) \<le> round_half_even (x / binary64_ulp x)"
    by (rule rhe_mono)
  then have "2 ^ 52 \<le> round_half_even (x / binary64_ulp x)"
    by (simp only: rhe_of_int)
  then have "(of_int (2 ^ 52) :: rat) \<le> of_int (round_half_even (x / binary64_ulp x))"
    by (simp only: of_int_le_iff)
  then have "of_int (2 ^ 52) * binary64_ulp x
               \<le> of_int (round_half_even (x / binary64_ulp x)) * binary64_ulp x"
    using ulp_pos [of x] by (intro mult_right_mono) simp_all
  then show ?thesis
    by (simp add: fl_scaled)
qed

lemma fl_mono:
  assumes "0 \<le> x" "x \<le> y"
  shows "round_binary64 x \<le> round_binary64 y"
proof -
  from assms have "\<bar>x\<bar> \<le> \<bar>y\<bar>" by simp
  then have le: "binary64_exponent x \<le> binary64_exponent y"
    by (rule exponent_mono)
  show ?thesis
  proof (cases "binary64_exponent x = binary64_exponent y")
    case True
    then have u: "binary64_ulp y = binary64_ulp x"
      by (simp add: binary64_ulp_def)
    have "x / binary64_ulp x \<le> y / binary64_ulp x"
      using assms(2) ulp_pos [of x] by (intro divide_right_mono) simp_all
    then have "round_half_even (x / binary64_ulp x) \<le> round_half_even (y / binary64_ulp x)"
      by (rule rhe_mono)
    then have "(of_int (round_half_even (x / binary64_ulp x)) :: rat)
                 \<le> of_int (round_half_even (y / binary64_ulp x))"
      by (simp only: of_int_le_iff)
    then have "of_int (round_half_even (x / binary64_ulp x)) * binary64_ulp x
                 \<le> of_int (round_half_even (y / binary64_ulp x)) * binary64_ulp x"
      using ulp_pos [of x] by (intro mult_right_mono) simp_all
    then show ?thesis
      by (simp only: fl_scaled u)
  next
    case False
    with le have lt: "binary64_exponent x + 1 \<le> binary64_exponent y"
      and nz: "binary64_exponent y \<noteq> 0"
      by simp_all
    from assms have y: "0 \<le> y" by simp
    have "round_binary64 x \<le> 2 ^ 53 * binary64_ulp x"
      by (rule fl_upper)
    also have "\<dots> = 2 ^ 52 * (2 ^ (binary64_exponent x + 1) / binary64_scale)"
      by (simp add: binary64_ulp_def)
    also have "\<dots> \<le> 2 ^ 52 * (2 ^ binary64_exponent y / binary64_scale)"
    proof -
      have "(2::rat) ^ (binary64_exponent x + 1) \<le> 2 ^ binary64_exponent y"
        using lt by (intro power_increasing) simp_all
      then have "(2::rat) ^ (binary64_exponent x + 1) / binary64_scale
                   \<le> 2 ^ binary64_exponent y / binary64_scale"
        using scale_pos by (intro divide_right_mono) simp_all
      then show ?thesis
        by (intro mult_left_mono) simp_all
    qed
    also have "\<dots> = 2 ^ 52 * binary64_ulp y"
      by (simp only: binary64_ulp_def)
    also have "\<dots> \<le> round_binary64 y"
      using y nz by (rule fl_lower)
    finally show ?thesis .
  qed
qed

lemma fl_nonneg: "0 \<le> x \<Longrightarrow> 0 \<le> round_binary64 x"
  using fl_mono [of 0 x] by (simp add: fl_0)

lemma fl_error: "\<bar>round_binary64 x - x\<bar> \<le> binary64_ulp x / 2"
proof -
  define u where "u = binary64_ulp x"
  define z where "z = x / u"
  have u: "0 < u" unfolding u_def by (rule ulp_pos)
  have x: "x = z * u" using u by (simp add: z_def)
  have "\<bar>of_int (round_half_even z) - z\<bar> \<le> 1 / 2"
    using rhe_bounds [of z] by linarith
  then have "\<bar>of_int (round_half_even z) - z\<bar> * u \<le> 1 / 2 * u"
    using u by (intro mult_right_mono) simp_all
  moreover have "\<bar>of_int (round_half_even z) - z\<bar> * u = \<bar>of_int (round_half_even z) * u - z * u\<bar>"
  proof -
    have "\<bar>(of_int (round_half_even z) - z) * u\<bar> = \<bar>of_int (round_half_even z) - z\<bar> * \<bar>u\<bar>"
      by (rule abs_mult)
    with u show ?thesis
      by (simp add: left_diff_distrib)
  qed
  ultimately have "\<bar>of_int (round_half_even z) * u - z * u\<bar> \<le> u / 2"
    by simp
  then show ?thesis
    unfolding fl_scaled u_def [symmetric] z_def [symmetric] x [symmetric] .
qed

lemma scale_split: "binary64_scale = 2 ^ 52 * 2 ^ 1022"
  by (simp add: binary64_scale_def)

lemma ulp_binade:
  assumes "2 ^ k \<le> \<bar>x\<bar>" "\<bar>x\<bar> < 2 ^ (k + 1)"
  shows "binary64_ulp x = 2 ^ k / 2 ^ 52"
proof -
  have s: "binary64_scale = 2 ^ 1074"
    by (rule binary64_scale_def)
  have "(2::rat) ^ (k + 1022 + 52) = 2 ^ k * 2 ^ 1074"
    by (simp only: power_add [symmetric]) simp
  also have "\<dots> \<le> \<bar>x\<bar> * 2 ^ 1074"
    using assms(1) by (intro mult_right_mono) simp_all
  finally have 1: "2 ^ (k + 1022 + 52) \<le> \<bar>x\<bar> * binary64_scale"
    by (simp only: s)
  have "\<bar>x\<bar> * 2 ^ 1074 < 2 ^ (k + 1) * (2::rat) ^ 1074"
    using assms(2) by (intro mult_strict_right_mono) simp_all
  also have "\<dots> = 2 ^ (k + 1022 + 53)"
    by (simp only: power_add [symmetric]) simp
  finally have 2: "\<bar>x\<bar> * binary64_scale < 2 ^ (k + 1022 + 53)"
    by (simp only: s)
  from 1 2 have "binary64_exponent x = k + 1022"
    by (rule exponent_unique)
  then have "binary64_ulp x = 2 ^ k * 2 ^ 1022 / (2 ^ 52 * 2 ^ 1022)"
    by (simp only: binary64_ulp_def scale_split power_add)
  then show ?thesis
    by simp
qed

lemma ulp_le:
  assumes "\<bar>x\<bar> < 2 ^ k"
  shows "binary64_ulp x \<le> 2 ^ k / 2 ^ 53"
proof -
  have s: "binary64_scale = 2 ^ 1074"
    by (rule binary64_scale_def)
  have "binary64_exponent x + 53 \<le> k + 1074"
  proof (cases "binary64_exponent x = 0")
    case True
    then show ?thesis by simp
  next
    case False
    then have "(2::rat) ^ (binary64_exponent x + 52) \<le> \<bar>x\<bar> * binary64_scale"
      by (rule exponent_lower)
    also have "\<dots> < 2 ^ k * binary64_scale"
      using assms scale_pos by (intro mult_strict_right_mono) simp_all
    also have "\<dots> = 2 ^ (k + 1074)"
      by (simp only: s power_add)
    finally have "binary64_exponent x + 52 < k + 1074"
      by (rule pow2_less_cancel)
    then show ?thesis by simp
  qed
  then have "(2::rat) ^ (binary64_exponent x + 53) \<le> 2 ^ (k + 1074)"
    by (intro power_increasing) simp_all
  then have "(2::rat) ^ binary64_exponent x * 2 ^ 53 \<le> 2 ^ k * binary64_scale"
    by (simp only: s power_add)
  then show ?thesis
    unfolding binary64_ulp_def using scale_pos
    by (simp add: divide_le_eq pos_le_divide_eq mult.commute)
qed

lemma fl_us_per_day: "round_binary64 (of_int us_per_day) = of_int us_per_day"
proof -
  have u: "binary64_ulp 86400000000 = 2 ^ 36 / 2 ^ 52"
    by (rule ulp_binade) simp_all
  have "round_binary64 86400000000 = 86400000000"
    by (simp add: fl_scaled u round_half_even_def floor_rat_numeral)
  then show ?thesis
    by (simp add: us_per_day_def)
qed

lemma fl_365: "round_binary64 365 = 365"
proof -
  have u: "binary64_ulp 365 = 2 ^ 8 / 2 ^ 52"
    by (rule ulp_binade) simp_all
  show ?thesis
    by (simp add: fl_scaled u round_half_even_def floor_rat_numeral)
qed

lemma fl_366: "round_binary64 366 = 366"
proof -
  have u: "binary64_ulp 366 = 2 ^ 8 / 2 ^ 52"
    by (rule ulp_binade) simp_all
  show ?thesis
    by (simp add: fl_scaled u round_half_even_def floor_rat_numeral)
qed

lemma fl_days_in: "round_binary64 (of_int (days_in y)) = of_int (days_in y)"
  by (simp add: days_in_def fl_365 fl_366)

lemma round_binary64_eval:
  assumes "2 ^ k \<le> \<bar>x\<bar>" "\<bar>x\<bar> < 2 ^ (k + 1)"
    and "round_half_even (x * 2 ^ 52 / 2 ^ k) = n" "of_int n * 2 ^ k / 2 ^ 52 = r"
  shows "round_binary64 x = r"
proof -
  have "binary64_ulp x = 2 ^ k / 2 ^ 52"
    using assms(1,2) by (rule ulp_binade)
  then have "round_binary64 x = of_int (round_half_even (x / (2 ^ k / 2 ^ 52))) * (2 ^ k / 2 ^ 52)"
    by (simp only: fl_scaled)
  also have "x / (2 ^ k / 2 ^ 52) = x * 2 ^ 52 / 2 ^ k"
    by simp
  finally show ?thesis
    using assms(3,4) by simp
qed

text \<open>
  The fractional part of a binary64 number is a binary64 number: it is a multiple of its own
  unit in the last place.
\<close>

lemma exponent_small:
  assumes "\<bar>x\<bar> < 1"
  shows "binary64_exponent x \<le> 1074"
proof (cases "binary64_exponent x = 0")
  case True
  then show ?thesis by simp
next
  case False
  then have "(2::rat) ^ (binary64_exponent x + 52) \<le> \<bar>x\<bar> * binary64_scale"
    by (rule exponent_lower)
  also have "\<dots> < 1 * binary64_scale"
    using assms scale_pos by (intro mult_strict_right_mono) simp_all
  also have "\<dots> = 2 ^ 1074"
    by (simp only: binary64_scale_def mult_1)
  finally have "binary64_exponent x + 52 < 1074"
    by (rule pow2_less_cancel)
  then show ?thesis by simp
qed

lemma fl_fixes_multiples:
  assumes "x = of_int m * binary64_ulp x"
  shows "round_binary64 x = x"
proof -
  have "x / binary64_ulp x = of_int m"
    using assms ulp_pos [of x] by (simp add: field_simps)
  then have "round_binary64 x = of_int (round_half_even (of_int m)) * binary64_ulp x"
    by (simp only: fl_scaled)
  with assms show ?thesis
    by (simp only: rhe_of_int)
qed

lemma trunc_rat_bounds:
  shows "\<bar>q - of_int (trunc_rat q)\<bar> < 1" and "\<bar>q - of_int (trunc_rat q)\<bar> \<le> \<bar>q\<bar>"
  unfolding trunc_rat_def by (auto; linarith)+

lemma fractional_part_is_binary64:
  assumes "is_binary64 q"
  shows "is_binary64 (q - of_int (trunc_rat q))"
proof -
  define t where "t = trunc_rat q"
  define f where "f = q - of_int t"
  define e where "e = binary64_exponent q"
  define e' where "e' = binary64_exponent f"
  define n where "n = round_half_even (q / binary64_ulp q)"
  have f1: "\<bar>f\<bar> < 1" and fq: "\<bar>f\<bar> \<le> \<bar>q\<bar>"
    unfolding f_def t_def by (rule trunc_rat_bounds)+
  from assms have "round_binary64 q = q"
    by (simp add: is_binary64_def)
  then have q: "q = of_int n * (2 ^ e / binary64_scale)"
    by (simp only: n_def e_def fl_scaled binary64_ulp_def)
  have le: "e' \<le> e"
    unfolding e_def e'_def using fq by (rule exponent_mono)
  have small: "e' \<le> 1074"
    unfolding e'_def using f1 by (rule exponent_small)
  have p1: "(2::rat) ^ e = 2 ^ (e - e') * 2 ^ e'"
    using le by (simp add: power_add [symmetric])
  have p2: "binary64_scale = 2 ^ (1074 - e') * 2 ^ e'"
    using small by (simp add: binary64_scale_def power_add [symmetric])
  have s: "0 < binary64_scale" by (rule scale_pos)
  have "f = of_int n * (2 ^ e / binary64_scale) - of_int t"
    using q by (simp add: f_def)
  also have "\<dots> = (of_int n * 2 ^ e - of_int t * binary64_scale) / binary64_scale"
    using s by (simp add: field_simps)
  also have "of_int n * 2 ^ e - of_int t * binary64_scale
               = (of_int n * 2 ^ (e - e') - of_int t * 2 ^ (1074 - e')) * (2::rat) ^ e'"
  proof -
    have "of_int t * binary64_scale = of_int t * 2 ^ (1074 - e') * (2::rat) ^ e'"
      by (subst p2) (simp only: mult.assoc)
    moreover have "of_int n * (2::rat) ^ e = of_int n * 2 ^ (e - e') * 2 ^ e'"
      by (subst p1) (simp only: mult.assoc)
    ultimately show ?thesis
      by (simp only: left_diff_distrib)
  qed
  finally have "f = of_int (n * 2 ^ (e - e') - t * 2 ^ (1074 - e')) * (2 ^ e' / binary64_scale)"
    by simp
  then have "f = of_int (n * 2 ^ (e - e') - t * 2 ^ (1074 - e')) * binary64_ulp f"
    by (simp only: binary64_ulp_def e'_def)
  then have "round_binary64 f = f"
    by (rule fl_fixes_multiples)
  moreover from f1 have "\<bar>f\<bar> < 2 ^ 1024"
    by simp
  ultimately show ?thesis
    by (simp add: is_binary64_def f_def t_def)
qed

text \<open>
  So the subtraction \<open>year_frac - year\<close> of the decoder loses nothing: rounding the exact
  difference to binary64 gives the exact difference.
\<close>

lemma float_sub_int_exact:
  assumes "is_binary64 q"
  shows "float_sub_int (Finite q) (trunc_rat q)
           = to_float (round_binary64 (q - of_int (trunc_rat q)))"
proof -
  define f where "f = q - of_int (trunc_rat q)"
  from assms have "is_binary64 f"
    unfolding f_def by (rule fractional_part_is_binary64)
  then have r: "round_binary64 f = f" and b: "\<bar>f\<bar> < 2 ^ 1024"
    by (simp_all only: is_binary64_def)
  from b have "\<not> 2 ^ 1024 \<le> f" and "\<not> f \<le> - (2 ^ 1024)"
    by (simp_all only: abs_less_iff not_le) linarith+
  then have "to_float f = Finite f"
    by (simp only: to_float_def if_False)
  then show ?thesis
    by (simp only: r f_def [symmetric] float_sub_int.simps)
qed

subsection \<open>The microseconds of a \<open>timedelta\<close>\<close>

lemma trunc_rat_nonneg: "0 \<le> q \<Longrightarrow> trunc_rat q = \<lfloor>q\<rfloor>"
  by (simp add: trunc_rat_def)

lemma frac_part_bounds:
  fixes q :: rat
  shows "0 \<le> q - of_int \<lfloor>q\<rfloor>" "q - of_int \<lfloor>q\<rfloor> < 1"
  by linarith+

lemma round_leftover_rhe:
  assumes "0 \<le> l" "l < 1"
  shows "x + round_leftover x l = round_half_even (of_int x + l)"
proof -
  have fl0: "\<lfloor>of_int x + l\<rfloor> = x"
    using assms by linarith
  consider "l < 1 / 2" | "l = 1 / 2" | "1 / 2 < l"
    by linarith
  then show ?thesis
  proof cases
    case 1
    with assms have "\<lfloor>l + 1 / 2\<rfloor> = 0"
      by linarith
    with 1 assms show ?thesis
      by (simp add: round_leftover_def round_half_away_def round_half_even_def fl0 Let_def)
  next
    case 2
    have "\<lfloor>of_int x + 1 / 2 :: rat\<rfloor> = x"
      using fl0 by (simp only: 2)
    then show ?thesis
      by (simp add: 2 round_leftover_def round_half_away_def round_half_even_def Let_def
            floor_rat_numeral floor_rat_one_div)
  next
    case 3
    with assms have "\<lfloor>l + 1 / 2\<rfloor> = 1"
      by linarith
    with 3 assms show ?thesis
      by (simp add: round_leftover_def round_half_away_def round_half_even_def fl0 Let_def)
  qed
qed

lemma timedelta_days_nonneg:
  assumes "0 \<le> d"
  shows "timedelta_days (Finite d) =
           (if timedelta_us d < - 999999999 * us_per_day \<or> 1000000000 * us_per_day \<le> timedelta_us d
            then Inl OverflowError else Inr (timedelta_us d))"
proof -
  define f where "f = d - of_int \<lfloor>d\<rfloor>"
  define p where "p = round_binary64 (of_int us_per_day * f)"
  define l where "l = p - of_int \<lfloor>p\<rfloor>"
  have f: "0 \<le> f"
    unfolding f_def by (rule frac_part_bounds)
  then have "0 \<le> of_int us_per_day * f"
    by (simp add: us_per_day_def)
  then have p: "0 \<le> p"
    unfolding p_def by (rule fl_nonneg)
  have l: "0 \<le> l" "l < 1"
    unfolding l_def by (rule frac_part_bounds)+
  have "\<lfloor>d\<rfloor> * us_per_day + \<lfloor>p\<rfloor> + round_leftover (\<lfloor>d\<rfloor> * us_per_day + \<lfloor>p\<rfloor>) l
          = round_half_even (of_int (\<lfloor>d\<rfloor> * us_per_day + \<lfloor>p\<rfloor>) + l)"
    using l by (rule round_leftover_rhe)
  also have "of_int (\<lfloor>d\<rfloor> * us_per_day + \<lfloor>p\<rfloor>) + l = of_int (\<lfloor>d\<rfloor> * us_per_day) + p"
    by (simp add: l_def)
  finally have us: "\<lfloor>d\<rfloor> * us_per_day + \<lfloor>p\<rfloor> + round_leftover (\<lfloor>d\<rfloor> * us_per_day + \<lfloor>p\<rfloor>) l
          = timedelta_us d"
    by (simp only: timedelta_us_def p_def f_def)
  show ?thesis
    using us
    by (simp only: timedelta_days.simps Let_def trunc_rat_nonneg [OF assms] trunc_rat_nonneg [OF p]
          f_def [symmetric] p_def [symmetric] l_def [symmetric])
qed

lemma timedelta_us_of_int: "timedelta_us (of_int n) = n * us_per_day"
  by (simp add: timedelta_us_def fl_0 rhe_of_int del: of_int_mult)

lemma timedelta_us_mono:
  assumes "0 \<le> a" "a \<le> b"
  shows "timedelta_us a \<le> timedelta_us b"
proof -
  define fa where "fa = a - of_int \<lfloor>a\<rfloor>"
  define fb where "fb = b - of_int \<lfloor>b\<rfloor>"
  have fa: "0 \<le> fa" "fa < 1" and fb: "0 \<le> fb" "fb < 1"
    unfolding fa_def fb_def by (rule frac_part_bounds)+
  have F: "(0::rat) \<le> of_int us_per_day"
    by (simp add: us_per_day_def)
  show ?thesis
  proof (cases "\<lfloor>a\<rfloor> = \<lfloor>b\<rfloor>")
    case True
    with assms(2) have "fa \<le> fb"
      by (simp add: fa_def fb_def)
    then have "of_int us_per_day * fa \<le> of_int us_per_day * fb"
      using F by (rule mult_left_mono)
    moreover have "0 \<le> of_int us_per_day * fa"
      using F fa(1) by (rule mult_nonneg_nonneg)
    ultimately have "round_binary64 (of_int us_per_day * fa) \<le> round_binary64 (of_int us_per_day * fb)"
      by (rule fl_mono [rotated])
    then have "of_int (\<lfloor>a\<rfloor> * us_per_day) + round_binary64 (of_int us_per_day * fa)
                 \<le> of_int (\<lfloor>b\<rfloor> * us_per_day) + round_binary64 (of_int us_per_day * fb)"
      by (simp add: True)
    then show ?thesis
      unfolding timedelta_us_def fa_def [symmetric] fb_def [symmetric] by (rule rhe_mono)
  next
    case False
    with assms(2) have step: "\<lfloor>a\<rfloor> + 1 \<le> \<lfloor>b\<rfloor>"
      using floor_mono [of a b] by linarith
    have "of_int us_per_day * fa \<le> of_int us_per_day * 1"
      using fa(2) F by (intro mult_left_mono) simp_all
    moreover have "0 \<le> of_int us_per_day * fa"
      using F fa(1) by (rule mult_nonneg_nonneg)
    ultimately have "round_binary64 (of_int us_per_day * fa) \<le> round_binary64 (of_int us_per_day * 1)"
      by (rule fl_mono [rotated])
    then have pa: "round_binary64 (of_int us_per_day * fa) \<le> of_int us_per_day"
      by (simp add: fl_us_per_day)
    have "0 \<le> of_int us_per_day * fb"
      using F fb(1) by (rule mult_nonneg_nonneg)
    then have pb: "0 \<le> round_binary64 (of_int us_per_day * fb)"
      by (rule fl_nonneg)
    have "of_int (\<lfloor>a\<rfloor> * us_per_day) + round_binary64 (of_int us_per_day * fa)
            \<le> of_int ((\<lfloor>a\<rfloor> + 1) * us_per_day)"
      using pa by (simp add: algebra_simps)
    then have "timedelta_us a \<le> round_half_even (of_int ((\<lfloor>a\<rfloor> + 1) * us_per_day))"
      unfolding timedelta_us_def fa_def [symmetric] by (rule rhe_mono)
    then have 1: "timedelta_us a \<le> (\<lfloor>a\<rfloor> + 1) * us_per_day"
      by (simp only: rhe_of_int)
    have "of_int (\<lfloor>b\<rfloor> * us_per_day) \<le> of_int (\<lfloor>b\<rfloor> * us_per_day) + round_binary64 (of_int us_per_day * fb)"
      using pb by simp
    then have "round_half_even (of_int (\<lfloor>b\<rfloor> * us_per_day)) \<le> timedelta_us b"
      unfolding timedelta_us_def fb_def [symmetric] by (rule rhe_mono)
    then have 2: "\<lfloor>b\<rfloor> * us_per_day \<le> timedelta_us b"
      by (simp only: rhe_of_int)
    have "(\<lfloor>a\<rfloor> + 1) * us_per_day \<le> \<lfloor>b\<rfloor> * us_per_day"
      using step by (intro mult_right_mono) (simp_all add: us_per_day_def)
    with 1 2 show ?thesis by linarith
  qed
qed

lemma timedelta_us_accurate:
  assumes "0 \<le> d"
  shows "\<bar>of_int (timedelta_us d) - d * of_int us_per_day\<bar> \<le> 1 / 2 + 1 / 2 ^ 17"
proof -
  define f where "f = d - of_int \<lfloor>d\<rfloor>"
  define p where "p = round_binary64 (of_int us_per_day * f)"
  define s where "s = of_int (\<lfloor>d\<rfloor> * us_per_day) + p"
  have f: "0 \<le> f" "f < 1"
    unfolding f_def by (rule frac_part_bounds)+
  have "of_int us_per_day * f < of_int us_per_day * 1"
    using f(2) by (intro mult_strict_left_mono) (simp_all add: us_per_day_def)
  moreover have "0 \<le> of_int us_per_day * f"
    using f(1) by (intro mult_nonneg_nonneg) (simp_all add: us_per_day_def)
  ultimately have "\<bar>of_int us_per_day * f\<bar> < 2 ^ 37"
    by (simp add: us_per_day_def)
  then have "binary64_ulp (of_int us_per_day * f) \<le> 2 ^ 37 / 2 ^ 53"
    by (rule ulp_le)
  with fl_error [of "of_int us_per_day * f"]
  have e1: "\<bar>p - of_int us_per_day * f\<bar> \<le> 1 / 2 ^ 17"
    unfolding p_def by simp
  have e2: "\<bar>of_int (round_half_even s) - s\<bar> \<le> 1 / 2"
    using rhe_bounds [of s] by linarith
  have "d * of_int us_per_day = of_int (\<lfloor>d\<rfloor> * us_per_day) + of_int us_per_day * f"
    by (simp add: f_def algebra_simps)
  then have "of_int (round_half_even s) - d * of_int us_per_day
               = (of_int (round_half_even s) - s) + (p - of_int us_per_day * f)"
    by (simp add: s_def)
  with e1 e2 have "\<bar>of_int (round_half_even s) - d * of_int us_per_day\<bar> \<le> 1 / 2 + 1 / 2 ^ 17"
    by linarith
  then show ?thesis
    by (simp only: timedelta_us_def s_def p_def f_def)
qed

subsection \<open>The calendar\<close>

lemma trunc_rat_in_year:
  assumes "0 \<le> y" "of_int y \<le> q" "q < of_int y + 1"
  shows "trunc_rat q = y"
proof -
  from assms have "0 \<le> q" by (metis of_int_0_le_iff order_trans)
  moreover from assms have "\<lfloor>q\<rfloor> = y" by linarith
  ultimately show ?thesis by (simp add: trunc_rat_def)
qed

lemma div_step:
  fixes y d :: int
  assumes "0 < d"
  shows "y div d = (y - 1) div d + (if y mod d = 0 then 1 else 0)"
proof (cases "y mod d = 0")
  case True
  have "y - 1 = d * (y div d - 1) + (d - 1)"
    using True mult_div_mod_eq [of d y] by (simp add: algebra_simps)
  then have "(y - 1) div d = y div d - 1"
    using assms by (intro int_div_pos_eq [of "y - 1" d "y div d - 1" "d - 1"]) simp_all
  with True show ?thesis by simp
next
  case False
  then have "1 \<le> y mod d"
    using assms pos_mod_sign [of d y] by linarith
  moreover have "y - 1 = d * (y div d) + (y mod d - 1)"
    using mult_div_mod_eq [of d y] by (simp add: algebra_simps)
  moreover have "y mod d - 1 < d"
    using assms pos_mod_bound [of d y] by linarith
  ultimately have "(y - 1) div d = y div d"
    by (intro int_div_pos_eq [of "y - 1" d "y div d" "y mod d - 1"]) simp_all
  with False show ?thesis by simp
qed

lemma days_before_next: "days_before_year (y + 1) = days_before_year y + days_in y"
proof -
  define p4 p100 p400 where "p4 = (y mod 4 = 0)" and "p100 = (y mod 100 = 0)"
    and "p400 = (y mod 400 = 0)"
  define a b c where "a = (y - 1) div 4" and "b = (y - 1) div 100" and "c = (y - 1) div 400"
  have d4: "y div 4 = a + (if p4 then 1 else 0)"
    unfolding a_def p4_def by (rule div_step) simp
  have d100: "y div 100 = b + (if p100 then 1 else 0)"
    unfolding b_def p100_def by (rule div_step) simp
  have d400: "y div 400 = c + (if p400 then 1 else 0)"
    unfolding c_def p400_def by (rule div_step) simp
  have "(100::int) dvd 400" "(4::int) dvd 100"
    by simp_all
  then have chain: "p400 \<longrightarrow> p100" "p100 \<longrightarrow> p4"
    unfolding p4_def p100_def p400_def by (auto simp only: mod_eq_0_iff_dvd dest: dvd_trans)
  have next_year: "days_before_year (y + 1) = y * 365 + y div 4 - y div 100 + y div 400"
    by (simp add: days_before_year_def Let_def)
  have this_year: "days_before_year y = (y - 1) * 365 + a - b + c"
    by (simp add: days_before_year_def Let_def a_def b_def c_def)
  have leap: "days_in y = (if p4 \<and> (\<not> p100 \<or> p400) then 366 else 365)"
    by (simp add: days_in_def is_leap_def p4_def p100_def p400_def)
  show ?thesis
    unfolding next_year this_year leap d4 d100 d400
    using chain by (cases p4; cases p100; cases p400) (simp_all add: algebra_simps)
qed

lemma days_before_mono: "y \<le> z \<Longrightarrow> days_before_year y \<le> days_before_year z"
proof (induction z rule: int_ge_induct)
  case base
  show ?case by simp
next
  case (step i)
  have "0 \<le> days_in i" by (simp add: days_in_def)
  with step days_before_next [of i] show ?case by simp
qed

lemma days_before_1: "days_before_year 1 = 0"
  by (simp add: days_before_year_def)

lemma in_range_before_end:
  assumes "1 \<le> y" "y \<le> 9999" "0 \<le> d" "d < days_in y * us_per_day"
  shows "datetime_add (days_before_year y * us_per_day) d = Inr (days_before_year y * us_per_day + d)"
proof -
  have "0 \<le> days_before_year y"
    using days_before_mono [of 1 y] assms by (simp add: days_before_1)
  then have lo: "0 \<le> days_before_year y * us_per_day + d"
    using assms by (simp add: us_per_day_def)
  have "days_before_year (y + 1) \<le> days_before_year 10000"
    using assms by (intro days_before_mono) simp
  then have "(days_before_year y + days_in y) * us_per_day \<le> datetime_end"
    by (simp add: days_before_next datetime_end_def us_per_day_def)
  with assms have "days_before_year y * us_per_day + d < datetime_end"
    by (simp add: algebra_simps)
  with lo show ?thesis by (simp add: datetime_add_def)
qed

lemma in_range_early_year:
  assumes "1 \<le> y" "y \<le> 9998" "0 \<le> d" "d \<le> days_in y * us_per_day"
  shows "datetime_add (days_before_year y * us_per_day) d = Inr (days_before_year y * us_per_day + d)"
proof -
  have "0 \<le> days_before_year y"
    using days_before_mono [of 1 y] assms by (simp add: days_before_1)
  then have lo: "0 \<le> days_before_year y * us_per_day + d"
    using assms by (simp add: us_per_day_def)
  have "days_before_year (y + 1) \<le> days_before_year 9999"
    using assms by (intro days_before_mono) simp
  moreover have "days_before_year 9999 < days_before_year 10000"
    by (simp add: days_before_year_def)
  ultimately have "(days_before_year y + days_in y) * us_per_day < datetime_end"
    by (simp add: days_before_next datetime_end_def us_per_day_def)
  with assms have "days_before_year y * us_per_day + d < datetime_end"
    by (simp add: algebra_simps)
  with lo show ?thesis by (simp add: datetime_add_def)
qed

lemma is_leap_gregorian: "is_leap y = gregorian_leap y"
  by (simp add: is_leap_def gregorian_leap_def dvd_eq_mod_eq_0)

subsection \<open>The offset within the year\<close>

lemma days_offset_bounds:
  assumes "of_int y \<le> q" "q < of_int y + 1"
  shows "0 \<le> round_binary64 ((q - of_int y) * of_int (days_in y))"
    and "round_binary64 ((q - of_int y) * of_int (days_in y)) \<le> of_int (days_in y)"
proof -
  have n: "(0::rat) \<le> of_int (days_in y)"
    by (simp add: days_in_def)
  have nn: "0 \<le> (q - of_int y) * of_int (days_in y)"
    using assms(1) n by (intro mult_nonneg_nonneg) simp_all
  then show "0 \<le> round_binary64 ((q - of_int y) * of_int (days_in y))"
    by (rule fl_nonneg)
  have "(q - of_int y) * of_int (days_in y) \<le> 1 * of_int (days_in y)"
    using assms(2) n by (intro mult_right_mono) simp_all
  with nn have "round_binary64 ((q - of_int y) * of_int (days_in y))
                  \<le> round_binary64 (1 * of_int (days_in y))"
    by (rule fl_mono)
  then show "round_binary64 ((q - of_int y) * of_int (days_in y)) \<le> of_int (days_in y)"
    by (simp add: fl_days_in)
qed

lemma offset_us_bounds:
  assumes "of_int y \<le> q" "q < of_int y + 1"
  shows "0 \<le> offset_us y q" "offset_us y q \<le> days_in y * us_per_day"
proof -
  note d = days_offset_bounds [OF assms]
  have "timedelta_us (of_int 0) \<le> offset_us y q"
    unfolding offset_us_def using d(1) by (intro timedelta_us_mono) simp_all
  then have "0 * us_per_day \<le> offset_us y q"
    by (simp only: timedelta_us_of_int)
  then show "0 \<le> offset_us y q"
    by simp
  have "offset_us y q \<le> timedelta_us (of_int (days_in y))"
    unfolding offset_us_def using d by (intro timedelta_us_mono)
  then show "offset_us y q \<le> days_in y * us_per_day"
    by (simp only: timedelta_us_of_int)
qed

lemma offset_us_mono:
  assumes "of_int y \<le> a" "a \<le> b"
  shows "offset_us y a \<le> offset_us y b"
proof -
  have n: "(0::rat) \<le> of_int (days_in y)"
    by (simp add: days_in_def)
  have nn: "0 \<le> (a - of_int y) * of_int (days_in y)"
    using assms(1) n by (intro mult_nonneg_nonneg) simp_all
  have "(a - of_int y) * of_int (days_in y) \<le> (b - of_int y) * of_int (days_in y)"
    using assms(2) n by (intro mult_right_mono) simp_all
  with nn have "round_binary64 ((a - of_int y) * of_int (days_in y))
                  \<le> round_binary64 ((b - of_int y) * of_int (days_in y))"
    by (rule fl_mono)
  moreover have "0 \<le> round_binary64 ((a - of_int y) * of_int (days_in y))"
    using nn by (rule fl_nonneg)
  ultimately show ?thesis
    unfolding offset_us_def by (rule timedelta_us_mono [rotated])
qed

lemma decode_in_year:
  assumes "1 \<le> y" "y \<le> 9999" "of_int y \<le> q" "q < of_int y + 1"
  shows "fractional_year_to_datetime (Finite q) =
           datetime_add (days_before_year y * us_per_day) (offset_us y q)"
proof -
  define d where "d = round_binary64 ((q - of_int y) * of_int (days_in y))"
  have t: "trunc_rat q = y"
    using assms by (intro trunc_rat_in_year) simp_all
  have j: "datetime_jan1 y = Inr (days_before_year y * us_per_day)"
    using assms by (simp add: datetime_jan1_def)
  have d: "0 \<le> d" "d \<le> of_int (days_in y)"
    unfolding d_def using assms(3,4) by (rule days_offset_bounds)+
  have "(of_int (days_in y) :: rat) \<le> 366"
    by (simp add: days_in_def)
  with d have "d < 2 ^ 1024" "- (2 ^ 1024) < d"
    by simp_all
  then have m: "float_mul_int (Finite (q - of_int y)) (days_in y) = Finite d"
    by (simp add: to_float_def d_def)
  have o: "offset_us y q = timedelta_us d"
    by (simp only: offset_us_def d_def)
  have "days_in y \<le> 366" by (simp add: days_in_def)
  then have "days_in y * us_per_day \<le> 366 * us_per_day"
    by (simp add: us_per_day_def)
  with offset_us_bounds [OF assms(3,4)]
  have "\<not> (timedelta_us d < - 999999999 * us_per_day \<or> 1000000000 * us_per_day \<le> timedelta_us d)"
    by (simp add: us_per_day_def o)
  then have td: "timedelta_days (Finite d) = Inr (offset_us y q)"
    by (simp only: timedelta_days_nonneg [OF d(1)] o if_False)
  show ?thesis
    by (simp add: fractional_year_to_datetime_def t j m td del: timedelta_days.simps float_mul_int.simps)
qed

lemma offset_us_accurate:
  assumes "of_int y \<le> q" "q < of_int y + 1"
  shows "\<bar>of_int (offset_us y q) - (q - of_int y) * of_int (days_in y) * of_int us_per_day\<bar> < 1"
proof -
  define x where "x = (q - of_int y) * of_int (days_in y)"
  define d where "d = round_binary64 x"
  have d: "0 \<le> d"
    unfolding d_def x_def using assms by (rule days_offset_bounds)
  have "0 \<le> x"
    unfolding x_def using assms(1) by (intro mult_nonneg_nonneg) (simp_all add: days_in_def)
  moreover have "x < 1 * of_int (days_in y)"
    unfolding x_def using assms(2) by (intro mult_strict_right_mono) (simp_all add: days_in_def)
  then have "x < 2 ^ 9"
    by (simp add: days_in_def split: if_splits)
  ultimately have "\<bar>x\<bar> < 2 ^ 9"
    by simp
  then have "binary64_ulp x \<le> 2 ^ 9 / 2 ^ 53"
    by (rule ulp_le)
  with fl_error [of x] have "\<bar>d - x\<bar> \<le> 1 / 2 ^ 45"
    unfolding d_def by simp
  then have "\<bar>d - x\<bar> * of_int us_per_day \<le> 1 / 2 ^ 45 * of_int us_per_day"
    by (intro mult_right_mono) (simp_all add: us_per_day_def)
  moreover have "\<bar>d - x\<bar> * of_int us_per_day = \<bar>d * of_int us_per_day - x * of_int us_per_day\<bar>"
  proof -
    have "\<bar>(d - x) * of_int us_per_day\<bar> = \<bar>d - x\<bar> * \<bar>of_int us_per_day :: rat\<bar>"
      by (rule abs_mult)
    then show ?thesis
      by (simp add: left_diff_distrib us_per_day_def)
  qed
  ultimately have e1: "\<bar>d * of_int us_per_day - x * of_int us_per_day\<bar> \<le> 1 / 4"
    by (simp add: us_per_day_def)
  have e2: "\<bar>of_int (timedelta_us d) - d * of_int us_per_day\<bar> \<le> 1 / 2 + 1 / 2 ^ 17"
    using d by (rule timedelta_us_accurate)
  have "\<bar>of_int (timedelta_us d) - x * of_int us_per_day\<bar> < 1"
    using e1 e2 by (simp add: abs_if split: if_splits)
  then show ?thesis
    by (simp only: offset_us_def d_def x_def)
qed

text \<open>
  Evaluation at single inputs: the rational numbers of each step, checked one by one. At
  2013.8420844788452, the binary64 number \<open>553560697097287 / 2 ^ 38\<close>, the product with
  86400000000 is rounded to a number halfway between two microseconds and the even one
  is taken, where rounding the exact product would give the next microsecond.
\<close>

lemma offset_us_eval:
  assumes "(q - of_int y) * of_int (days_in y) = x" "round_binary64 x = d" "\<lfloor>d\<rfloor> = i"
    and "of_int us_per_day * (d - of_int i) = v" "round_binary64 v = p"
    and "round_half_even (of_int (i * us_per_day) + p) = us"
  shows "offset_us y q = us"
  using assms by (simp only: offset_us_def timedelta_us_def)

lemma offset_2013: "offset_us 2013 (553560697097287 / 274877906944) = 26555976124862"
proof (rule offset_us_eval)
  show "(553560697097287 / 274877906944 - of_int 2013) * of_int (days_in 2013)
          = (84486702940475 / 274877906944 :: rat)"
    by (simp add: days_in_def is_leap_def)
  show "round_binary64 (84486702940475 / 274877906944) = 84486702940475 / 274877906944"
    by (rule round_binary64_eval [where k = 8 and n = 5407148988190400])
       (simp_all add: round_half_even_def floor_rat_numeral)
  show "\<lfloor>84486702940475 / 274877906944 :: rat\<rfloor> = 307"
    by (simp add: floor_rat_numeral)
  show "of_int us_per_day * (84486702940475 / 274877906944 - of_int 307)
          = (1046097161722265625 / 33554432 :: rat)"
    by (simp add: us_per_day_def)
  show "round_binary64 (1046097161722265625 / 33554432) = 62352249725 / 2"
    by (rule round_binary64_eval [where k = 34 and n = 8172634075955200])
       (simp_all add: round_half_even_def floor_rat_numeral)
  show "round_half_even (of_int (307 * us_per_day) + 62352249725 / 2) = 26555976124862"
    by (simp add: us_per_day_def round_half_even_def floor_rat_numeral)
qed

lemma offset_2024_half: "offset_us 2024 (4049 / 2) = 183 * us_per_day"
proof (rule offset_us_eval)
  show "(4049 / 2 - of_int 2024) * of_int (days_in 2024) = (183 :: rat)"
    by (simp add: days_in_def is_leap_def)
  show "round_binary64 183 = 183"
    by (rule round_binary64_eval [where k = 7 and n = 6438740092256256])
       (simp_all add: round_half_even_def floor_rat_numeral)
  show "\<lfloor>183 :: rat\<rfloor> = 183"
    by simp
  show "of_int us_per_day * (183 - of_int 183) = (0 :: rat)"
    by simp
  show "round_binary64 0 = 0"
    by (rule fl_0)
  show "round_half_even (of_int (183 * us_per_day) + 0) = 183 * us_per_day"
    by (simp add: rhe_of_int del: of_int_mult)
qed

lemma offset_2023_half: "offset_us 2023 (4047 / 2) = 365 * us_per_day div 2"
proof (rule offset_us_eval)
  show "(4047 / 2 - of_int 2023) * of_int (days_in 2023) = (365 / 2 :: rat)"
    by (simp add: days_in_def is_leap_def)
  show "round_binary64 (365 / 2) = 365 / 2"
    by (rule round_binary64_eval [where k = 7 and n = 6421147906211840])
       (simp_all add: round_half_even_def floor_rat_numeral)
  show "\<lfloor>365 / 2 :: rat\<rfloor> = 182"
    by (simp add: floor_rat_numeral)
  show "of_int us_per_day * (365 / 2 - of_int 182) = (43200000000 :: rat)"
    by (simp add: us_per_day_def)
  show "round_binary64 43200000000 = 43200000000"
    by (rule round_binary64_eval [where k = 35 and n = 5662310400000000])
       (simp_all add: round_half_even_def floor_rat_numeral)
  show "round_half_even (of_int (182 * us_per_day) + 43200000000) = 365 * us_per_day div 2"
    by (simp add: us_per_day_def round_half_even_def)
qed

lemma offset_2024_quarter: "offset_us 2024 (8097 / 4) = 7905600000000"
proof (rule offset_us_eval)
  show "(8097 / 4 - of_int 2024) * of_int (days_in 2024) = (183 / 2 :: rat)"
    by (simp add: days_in_def is_leap_def)
  show "round_binary64 (183 / 2) = 183 / 2"
    by (rule round_binary64_eval [where k = 6 and n = 6438740092256256])
       (simp_all add: round_half_even_def floor_rat_numeral)
  show "\<lfloor>183 / 2 :: rat\<rfloor> = 91"
    by (simp add: floor_rat_numeral)
  show "of_int us_per_day * (183 / 2 - of_int 91) = (43200000000 :: rat)"
    by (simp add: us_per_day_def)
  show "round_binary64 43200000000 = 43200000000"
    by (rule round_binary64_eval [where k = 35 and n = 5662310400000000])
       (simp_all add: round_half_even_def floor_rat_numeral)
  show "round_half_even (of_int (91 * us_per_day) + 43200000000) = 7905600000000"
    by (simp add: us_per_day_def round_half_even_def)
qed

lemma offset_top_of_9999: "offset_us 9999 (10000 - 1 / 2 ^ 39) = 31535999999943"
proof (rule offset_us_eval)
  show "(10000 - 1 / 2 ^ 39 - of_int 9999) * of_int (days_in 9999)
          = (200660872068755 / 549755813888 :: rat)"
    by (simp add: days_in_def is_leap_def)
  show "round_binary64 (200660872068755 / 549755813888) = 200660872068755 / 549755813888"
    by (rule round_binary64_eval [where k = 8 and n = 6421147906200160])
       (simp_all add: round_half_even_def floor_rat_numeral)
  show "\<lfloor>200660872068755 / 549755813888 :: rat\<rfloor> = 364"
    by (simp add: floor_rat_numeral)
  show "of_int us_per_day * (200660872068755 / 549755813888 - of_int 364)
          = (5798205845750390625 / 67108864 :: rat)"
    by (simp add: us_per_day_def)
  show "round_binary64 (5798205845750390625 / 67108864) = 707788799530077 / 8192"
    by (rule round_binary64_eval [where k = 36 and n = 5662310396240616])
       (simp_all add: round_half_even_def floor_rat_numeral)
  show "round_half_even (of_int (364 * us_per_day) + 707788799530077 / 8192) = 31535999999943"
    by (simp add: us_per_day_def round_half_even_def floor_rat_numeral)
qed

lemma offset_us_last_year:
  assumes "9999 \<le> q" "q \<le> 10000 - 1 / 2 ^ 39"
  shows "offset_us 9999 q < days_in 9999 * us_per_day"
proof -
  have "offset_us 9999 q \<le> offset_us 9999 (10000 - 1 / 2 ^ 39)"
    using assms by (intro offset_us_mono) simp_all
  then have "offset_us 9999 q \<le> 31535999999943"
    by (simp only: offset_top_of_9999)
  then show ?thesis
    by (simp add: days_in_def is_leap_def us_per_day_def)
qed

lemma decode_returns:
  assumes "1 \<le> y" "y \<le> 9999" "of_int y \<le> q" "q < of_int y + 1" "q \<le> 10000 - 1 / 2 ^ 39"
  shows "fractional_year_to_datetime (Finite q) =
           Inr (days_before_year y * us_per_day + offset_us y q)"
proof -
  note decode_in_year [OF assms(1-4)]
  also have "datetime_add (days_before_year y * us_per_day) (offset_us y q) =
               Inr (days_before_year y * us_per_day + offset_us y q)"
  proof (cases "y = 9999")
    case True
    with assms(3,5) have "offset_us y q < days_in y * us_per_day"
      by (simp add: offset_us_last_year)
    with assms(1,2) offset_us_bounds(1) [OF assms(3,4)] show ?thesis
      by (rule in_range_before_end)
  next
    case False
    with assms(2) have "y \<le> 9998" by simp
    with assms(1) show ?thesis
      using offset_us_bounds [OF assms(3,4)] by (rule in_range_early_year)
  qed
  finally show ?thesis .
qed

lemma decode_2024_half:
  "fractional_year_to_datetime (Finite (4049 / 2)) = Inr 63855475200000000"
proof -
  have "fractional_year_to_datetime (Finite (4049 / 2)) =
          Inr (days_before_year 2024 * us_per_day + offset_us 2024 (4049 / 2))"
    by (rule decode_returns) simp_all
  then show ?thesis
    by (simp add: offset_2024_half days_before_year_def us_per_day_def)
qed

lemma decode_2023_half:
  "fractional_year_to_datetime (Finite (4047 / 2)) = Inr 63823896000000000"
proof -
  have "fractional_year_to_datetime (Finite (4047 / 2)) =
          Inr (days_before_year 2023 * us_per_day + offset_us 2023 (4047 / 2))"
    by (rule decode_returns) simp_all
  then show ?thesis
    by (simp add: offset_2023_half days_before_year_def us_per_day_def)
qed

lemma decode_2024_quarter:
  "fractional_year_to_datetime (Finite (8097 / 4)) = Inr 63847569600000000"
proof -
  have "fractional_year_to_datetime (Finite (8097 / 4)) =
          Inr (days_before_year 2024 * us_per_day + offset_us 2024 (8097 / 4))"
    by (rule decode_returns) simp_all
  then show ?thesis
    by (simp add: offset_2024_quarter days_before_year_def us_per_day_def)
qed

subsection \<open>Decoding within the range of \<open>datetime\<close>\<close>

text \<open>
  Claim C3, as amended. For every finite year fraction \<open>q\<close> from 1 up to the largest
  binary64 number below 10000 (which is \<open>10000 - 1 / 2 ^ 39\<close>), the decoder returns
  January 1 of the integer year \<open>\<lfloor>q\<rfloor>\<close> plus the duration that \<open>timedelta\<close> makes of the
  binary64 product of the fraction and the number of days of that year, 366 when the year
  is a leap year by the Gregorian rule and 365 otherwise. This duration is less than one
  microsecond away from the exact product. In particular 2024.5 is decoded to 183 days
  after January 1 of 2024 and 2023.5 to 182.5 days after January 1 of 2023.
\<close>

theorem decode_calendar_year:
  "(1 \<le> q \<and> q \<le> 10000 - 1 / 2 ^ 39 \<longrightarrow>
      fractional_year_to_datetime (Finite q) =
        Inr (days_before_year \<lfloor>q\<rfloor> * us_per_day +
             timedelta_us (round_binary64
               ((q - of_int \<lfloor>q\<rfloor>) * (if gregorian_leap \<lfloor>q\<rfloor> then 366 else 365))))
      \<and> \<bar>of_int (timedelta_us (round_binary64
               ((q - of_int \<lfloor>q\<rfloor>) * (if gregorian_leap \<lfloor>q\<rfloor> then 366 else 365))))
           - (q - of_int \<lfloor>q\<rfloor>) * (if gregorian_leap \<lfloor>q\<rfloor> then 366 else 365)
               * of_int us_per_day\<bar> < 1)
   \<and> fractional_year_to_datetime (Finite (4049 / 2)) =
        Inr (days_before_year 2024 * us_per_day + 183 * us_per_day)
   \<and> fractional_year_to_datetime (Finite (4047 / 2)) =
        Inr (days_before_year 2023 * us_per_day + 365 * us_per_day div 2)"
proof -
  have general: "fractional_year_to_datetime (Finite q) =
        Inr (days_before_year \<lfloor>q\<rfloor> * us_per_day +
             timedelta_us (round_binary64
               ((q - of_int \<lfloor>q\<rfloor>) * (if gregorian_leap \<lfloor>q\<rfloor> then 366 else 365))))
      \<and> \<bar>of_int (timedelta_us (round_binary64
               ((q - of_int \<lfloor>q\<rfloor>) * (if gregorian_leap \<lfloor>q\<rfloor> then 366 else 365))))
           - (q - of_int \<lfloor>q\<rfloor>) * (if gregorian_leap \<lfloor>q\<rfloor> then 366 else 365)
               * of_int us_per_day\<bar> < 1"
    if q: "1 \<le> q \<and> q \<le> 10000 - 1 / 2 ^ 39"
  proof -
    from q have "q < 10000"
      by simp
    then have hi: "\<lfloor>q\<rfloor> \<le> 9999"
      by (simp add: floor_less_iff)
    have lo: "1 \<le> \<lfloor>q\<rfloor>"
      using q by (simp add: le_floor_iff)
    have fr: "of_int \<lfloor>q\<rfloor> \<le> q" "q < of_int \<lfloor>q\<rfloor> + 1"
      by linarith+
    have days: "of_int (days_in \<lfloor>q\<rfloor>) = (if gregorian_leap \<lfloor>q\<rfloor> then 366 else 365 :: rat)"
      by (simp add: days_in_def is_leap_gregorian)
    from q have "q \<le> 10000 - 1 / 2 ^ 39" ..
    with lo hi fr have "fractional_year_to_datetime (Finite q) =
        Inr (days_before_year \<lfloor>q\<rfloor> * us_per_day + offset_us \<lfloor>q\<rfloor> q)"
      by (rule decode_returns)
    moreover have "\<bar>of_int (offset_us \<lfloor>q\<rfloor> q)
        - (q - of_int \<lfloor>q\<rfloor>) * of_int (days_in \<lfloor>q\<rfloor>) * of_int us_per_day\<bar> < 1"
      using fr by (rule offset_us_accurate)
    ultimately show ?thesis
      by (simp only: offset_us_def days)
  qed
  have "fractional_year_to_datetime (Finite (4049 / 2)) =
        Inr (days_before_year 2024 * us_per_day + 183 * us_per_day)"
    by (simp add: decode_2024_half days_before_year_def us_per_day_def)
  moreover have "fractional_year_to_datetime (Finite (4047 / 2)) =
        Inr (days_before_year 2023 * us_per_day + 365 * us_per_day div 2)"
    by (simp add: decode_2023_half days_before_year_def us_per_day_def)
  ultimately show ?thesis
    using general by blast
qed

theorem decode_calendar_year_witness:
  "(1::rat) \<le> 553560697097287 / 274877906944
   \<and> (553560697097287 / 274877906944 :: rat) \<le> 10000 - 1 / 2 ^ 39
   \<and> is_binary64 (553560697097287 / 274877906944)
   \<and> \<lfloor>553560697097287 / 274877906944 :: rat\<rfloor> = 2013
   \<and> \<not> gregorian_leap 2013
   \<and> fractional_year_to_datetime (Finite (553560697097287 / 274877906944))
        = Inr 63519151176124862"
proof -
  define q :: rat where "q = 553560697097287 / 274877906944"
  have y: "\<lfloor>q\<rfloor> = 2013"
    by (simp add: q_def floor_rat_numeral)
  have r: "1 \<le> q \<and> q \<le> 10000 - 1 / 2 ^ 39"
    by (simp add: q_def)
  have l: "\<not> gregorian_leap 2013"
    by (simp add: gregorian_leap_def)
  have "round_binary64 q = q"
    unfolding q_def
    by (rule round_binary64_eval [where k = 10 and n = 8856971153556592])
       (simp_all add: round_half_even_def floor_rat_numeral)
  then have b: "is_binary64 q"
    by (simp add: is_binary64_def) (simp add: q_def)
  have o: "timedelta_us (round_binary64 ((q - of_int 2013) * 365)) = 26555976124862"
    using offset_2013 by (simp add: offset_us_def days_in_def is_leap_def q_def)
  from decode_calendar_year [of q] r
  have "fractional_year_to_datetime (Finite q) =
        Inr (days_before_year \<lfloor>q\<rfloor> * us_per_day +
             timedelta_us (round_binary64
               ((q - of_int \<lfloor>q\<rfloor>) * (if gregorian_leap \<lfloor>q\<rfloor> then 366 else 365))))"
    by blast
  then have "fractional_year_to_datetime (Finite q) =
        Inr (days_before_year 2013 * us_per_day + 26555976124862)"
    by (simp only: y l if_False o)
  then have "fractional_year_to_datetime (Finite q) = Inr 63519151176124862"
    by (simp add: days_before_year_def us_per_day_def)
  with y r l b show ?thesis
    by (simp only: q_def) simp
qed

text \<open>
  The claim as stated covers every finite year fraction that is not negative. It fails at
  0.5: the integer year is 0, and \<open>datetime.datetime(0, 1, 1)\<close> raises \<open>ValueError\<close>.
\<close>

theorem decode_year_zero_raises:
  "fractional_year_to_datetime (Finite (1 / 2)) = Inl ValueError"
  by (simp add: fractional_year_to_datetime_def trunc_rat_def datetime_jan1_def)

text \<open>It fails in the same way from 10000 on.\<close>

lemma decode_year_10000_raises:
  "fractional_year_to_datetime (Finite 10000) = Inl ValueError"
  by (simp add: fractional_year_to_datetime_def trunc_rat_def datetime_jan1_def)

text \<open>
  Claim C7. A year fraction that is negative or not finite makes the decoder raise: it
  never returns a date.
\<close>

theorem decode_rejects:
  assumes "negative_or_non_finite x"
  shows "isl (fractional_year_to_datetime x)"
proof (cases x)
  case (Finite q)
  with assms have "q < 0"
    by (simp add: negative_or_non_finite_def)
  then have "trunc_rat q \<le> 0"
    by (simp add: trunc_rat_def ceiling_le_iff)
  then show ?thesis
    by (simp add: Finite fractional_year_to_datetime_def datetime_jan1_def)
qed (simp_all add: fractional_year_to_datetime_def)

theorem decode_rejects_witness:
  "negative_or_non_finite (Finite (- 1 / 2)) \<and> isl (fractional_year_to_datetime (Finite (- 1 / 2)))
   \<and> negative_or_non_finite NaN \<and> isl (fractional_year_to_datetime NaN)"
  using decode_rejects [of "Finite (- 1 / 2)"] decode_rejects [of NaN]
  by (simp add: negative_or_non_finite_def)

lemma decode_raises_outside:
  assumes "q < 1 \<or> 10000 \<le> q"
  shows "isl (fractional_year_to_datetime (Finite q))"
proof -
  have "trunc_rat q < 1 \<or> 9999 < trunc_rat q"
  proof (cases "q < 1")
    case True
    then have "\<lfloor>q\<rfloor> < 1" "\<lceil>q\<rceil> \<le> 1"
      by (simp_all add: floor_less_iff ceiling_le_iff)
    moreover have "q < 0 \<Longrightarrow> \<lceil>q\<rceil> \<le> 0"
      by (simp add: ceiling_le_iff)
    ultimately show ?thesis
      by (auto simp: trunc_rat_def)
  next
    case False
    with assms have "10000 \<le> q" by simp
    then have "10000 \<le> \<lfloor>q\<rfloor>" "0 \<le> q"
      by (simp_all add: le_floor_iff)
    then show ?thesis
      by (simp add: trunc_rat_def)
  qed
  then show ?thesis
    by (auto simp: fractional_year_to_datetime_def datetime_jan1_def)
qed

text \<open>
  Claim C8. For every integer year \<open>y\<close> and year fractions \<open>y \<le> a \<le> b < y + 1\<close>: when \<open>y\<close> is
  a year of \<open>datetime\<close>, from 1 to 9999, both are decoded and the date of \<open>a\<close> is not after
  the date of \<open>b\<close>; for any other year both are rejected, so no dates are compared. The
  binary64 product and the conversion of \<open>timedelta\<close> are both monotone. The hypothesis on
  the year 9999 holds for every binary64 number below 10000.
\<close>

theorem decode_monotone_in_year:
  assumes "of_int y \<le> a" "a \<le> b" "b < of_int y + 1"
    and "y = 9999 \<longrightarrow> b \<le> 10000 - 1 / 2 ^ 39"
  shows "(1 \<le> y \<and> y \<le> 9999 \<longrightarrow>
            (\<exists>da db. fractional_year_to_datetime (Finite a) = Inr da
               \<and> fractional_year_to_datetime (Finite b) = Inr db \<and> da \<le> db))
       \<and> (y < 1 \<or> 9999 < y \<longrightarrow>
            isl (fractional_year_to_datetime (Finite a))
          \<and> isl (fractional_year_to_datetime (Finite b)))"
proof -
  have inside: "\<exists>da db. fractional_year_to_datetime (Finite a) = Inr da
               \<and> fractional_year_to_datetime (Finite b) = Inr db \<and> da \<le> db"
    if y: "1 \<le> y \<and> y \<le> 9999"
  proof -
  have top: "b \<le> 10000 - 1 / 2 ^ 39"
  proof (cases "y = 9999")
    case True
    with assms(4) show ?thesis by simp
  next
    case False
    with y have "y + 1 \<le> 9999" by simp
    then have "(of_int (y + 1) :: rat) \<le> of_int 9999"
      by (simp only: of_int_le_iff)
    with assms(3) show ?thesis by simp
  qed
  have "fractional_year_to_datetime (Finite a) =
          Inr (days_before_year y * us_per_day + offset_us y a)"
    using assms y top by (intro decode_returns) simp_all
  moreover have "fractional_year_to_datetime (Finite b) =
          Inr (days_before_year y * us_per_day + offset_us y b)"
    using assms y top by (intro decode_returns) simp_all
  moreover have "offset_us y a \<le> offset_us y b"
    using assms(1,2) by (rule offset_us_mono)
  ultimately show ?thesis
    by simp
  qed
  have outside: "isl (fractional_year_to_datetime (Finite a))
          \<and> isl (fractional_year_to_datetime (Finite b))"
    if y: "y < 1 \<or> 9999 < y"
  proof -
  have "b < 1 \<or> 10000 \<le> a"
  proof (cases "y < 1")
    case True
    then have "y + 1 \<le> 1" by simp
    then have "(of_int (y + 1) :: rat) \<le> of_int 1"
      by (simp only: of_int_le_iff)
    with assms(3) show ?thesis by simp
  next
    case False
    with y have "10000 \<le> y" by simp
    then have "(of_int 10000 :: rat) \<le> of_int y"
      by (simp only: of_int_le_iff)
    with assms(1) show ?thesis by simp
  qed
  with assms(2) have "a < 1 \<or> 10000 \<le> a" "b < 1 \<or> 10000 \<le> b"
    by auto
  then show ?thesis
    by (simp add: decode_raises_outside)
  qed
  from inside outside show ?thesis
    by blast
qed

theorem decode_monotone_in_year_witness:
  "(of_int 2024 :: rat) \<le> 8097 / 4 \<and> (8097 / 4 :: rat) \<le> 4049 / 2
   \<and> (4049 / 2 :: rat) < of_int 2024 + 1
   \<and> fractional_year_to_datetime (Finite (8097 / 4)) = Inr 63847569600000000
   \<and> fractional_year_to_datetime (Finite (4049 / 2)) = Inr 63855475200000000
   \<and> (63847569600000000 :: int) \<le> 63855475200000000
   \<and> (of_int 0 :: rat) \<le> 1 / 5 \<and> (1 / 5 :: rat) \<le> 1 / 2 \<and> (1 / 2 :: rat) < of_int 0 + 1
   \<and> fractional_year_to_datetime (Finite (1 / 5)) = Inl ValueError
   \<and> fractional_year_to_datetime (Finite (1 / 2)) = Inl ValueError"
  using decode_monotone_in_year [of 2024 "8097 / 4" "4049 / 2"]
    decode_monotone_in_year [of 0 "1 / 5" "1 / 2"]
  by (simp add: decode_2024_quarter decode_2024_half)
     (simp add: fractional_year_to_datetime_def trunc_rat_def datetime_jan1_def floor_rat_one_div)

section \<open>Properties of the Collocation-Selector\<close>

lemma argmax_from_spec:
  assumes "b < length pre" "\<forall>j<length pre. pre ! j \<le> pre ! b" "\<forall>j<b. pre ! j < pre ! b"
  shows "argmax_from b (pre ! b) (length pre) ys < length (pre @ ys)
         \<and> (\<forall>j<length (pre @ ys). (pre @ ys) ! j \<le> (pre @ ys) ! argmax_from b (pre ! b) (length pre) ys)
         \<and> (\<forall>j<argmax_from b (pre ! b) (length pre) ys.
               (pre @ ys) ! j < (pre @ ys) ! argmax_from b (pre ! b) (length pre) ys)"
  using assms
proof (induction ys arbitrary: pre b)
  case Nil
  then show ?case by simp
next
  case (Cons x xs)
  let ?pre = "pre @ [x]"
  show ?case
  proof (cases "pre ! b < x")
    case True
    have 1: "length pre < length ?pre" by simp
    have 3: "\<forall>j<length pre. ?pre ! j < ?pre ! length pre"
    proof (intro allI impI)
      fix j assume j: "j < length pre"
      with Cons.prems(2) have "pre ! j \<le> pre ! b" by simp
      with True j show "?pre ! j < ?pre ! length pre" by (simp add: nth_append)
    qed
    have 2: "\<forall>j<length ?pre. ?pre ! j \<le> ?pre ! length pre"
    proof (intro allI impI)
      fix j assume "j < length ?pre"
      then have "j < length pre \<or> j = length pre" by auto
      with 3 show "?pre ! j \<le> ?pre ! length pre" by (auto simp: less_imp_le)
    qed
    from Cons.IH [of "length pre" ?pre, OF 1 2 3] True show ?thesis
      by simp
  next
    case False
    have 1: "b < length ?pre" using Cons.prems by simp
    have 2: "\<forall>j<length ?pre. ?pre ! j \<le> ?pre ! b"
      using Cons.prems False by (auto simp: nth_append less_Suc_eq)
    have 3: "\<forall>j<b. ?pre ! j < ?pre ! b"
      using Cons.prems by (auto simp: nth_append)
    from Cons.IH [of b ?pre, OF 1 2 3] False Cons.prems(1) show ?thesis
      by (simp add: nth_append)
  qed
qed

lemma argmax_spec:
  assumes "xs \<noteq> []"
  shows "\<exists>k. argmax xs = Inr k \<and> k < length xs \<and> (\<forall>j<length xs. xs ! j \<le> xs ! k)
           \<and> (\<forall>j<k. xs ! j < xs ! k)"
proof -
  from assms obtain x rest where xs: "xs = x # rest"
    by (cases xs) auto
  have "argmax_from 0 ([x] ! 0) (length [x]) rest < length ([x] @ rest)
         \<and> (\<forall>j<length ([x] @ rest). ([x] @ rest) ! j \<le> ([x] @ rest) ! argmax_from 0 ([x] ! 0) (length [x]) rest)
         \<and> (\<forall>j<argmax_from 0 ([x] ! 0) (length [x]) rest.
               ([x] @ rest) ! j < ([x] @ rest) ! argmax_from 0 ([x] ! 0) (length [x]) rest)"
    by (rule argmax_from_spec) simp_all
  then show ?thesis
    by (simp add: xs argmax_def)
qed

lemma count_filter_nth:
  "length (filter P xs) = length (filter (\<lambda>i. P (xs ! i)) [0..<length xs])"
proof -
  have "filter P (map (\<lambda>i. xs ! i) [0..<length xs]) = map (\<lambda>i. xs ! i) (filter (\<lambda>i. P (xs ! i)) [0..<length xs])"
    by (simp add: filter_map comp_def)
  then have "length (filter P (map (\<lambda>i. xs ! i) [0..<length xs])) = length (filter (\<lambda>i. P (xs ! i)) [0..<length xs])"
    by simp
  then show ?thesis by (simp only: map_nth)
qed

lemma valid_mask_shape:
  assumes "has_shape n m si" "has_shape n m sj"
  shows "length (valid_mask si sj fi fj) = n"
    and "\<And>obs k. obs < n \<Longrightarrow> k < m \<Longrightarrow> valid_mask si sj fi fj ! obs ! k = cell_ok si sj fi fj obs k"
  using assms by (auto simp: has_shape_def valid_mask_def cell_ok_def)

lemma column_sums_nth:
  assumes "has_shape n m si" "has_shape n m sj" "k < m"
  shows "column_sums m (valid_mask si sj fi fj) ! k
           = length (filter (\<lambda>obs. cell_ok si sj fi fj obs k) [0..<n])"
proof -
  have "column_sums m (valid_mask si sj fi fj) ! k
          = length (filter (\<lambda>obs. valid_mask si sj fi fj ! obs ! k) [0..<length (valid_mask si sj fi fj)])"
    using assms(3) by (simp add: column_sums_def count_filter_nth [of "\<lambda>row. row ! k"])
  also have "\<dots> = length (filter (\<lambda>obs. cell_ok si sj fi fj obs k) [0..<n])"
    using assms by (auto simp: valid_mask_shape intro!: arg_cong [of _ _ length] filter_cong)
  finally show ?thesis .
qed

lemma where_true_column:
  assumes "has_shape n m si" "has_shape n m sj" "k < m"
  shows "where_true (map (\<lambda>row. row ! k) (valid_mask si sj fi fj))
           = filter (\<lambda>obs. cell_ok si sj fi fj obs k) [0..<n]"
  using assms by (auto simp: where_true_def valid_mask_shape intro!: filter_cong)

lemma select_general:
  assumes "has_shape n m si" "has_shape n m sj" "0 < m"
  shows "\<exists>k. select m si sj fi fj = Inr (k, filter (\<lambda>obs. cell_ok si sj fi fj obs k) [0..<n])
           \<and> k < m
           \<and> (\<forall>j<m. length (filter (\<lambda>obs. cell_ok si sj fi fj obs j) [0..<n])
                       \<le> length (filter (\<lambda>obs. cell_ok si sj fi fj obs k) [0..<n]))
           \<and> (\<forall>j<k. length (filter (\<lambda>obs. cell_ok si sj fi fj obs j) [0..<n])
                       < length (filter (\<lambda>obs. cell_ok si sj fi fj obs k) [0..<n]))"
proof -
  let ?counts = "column_sums m (valid_mask si sj fi fj)"
  have len: "length ?counts = m"
    by (simp add: column_sums_def)
  with assms(3) have "?counts \<noteq> []"
    by auto
  from argmax_spec [OF this] len obtain k where k: "argmax ?counts = Inr k" "k < m"
    "\<forall>j<m. ?counts ! j \<le> ?counts ! k" "\<forall>j<k. ?counts ! j < ?counts ! k"
    by auto
  have cnt: "\<And>j. j < m \<Longrightarrow> ?counts ! j = length (filter (\<lambda>obs. cell_ok si sj fi fj obs j) [0..<n])"
    using assms(1,2) by (rule column_sums_nth)
  have "select m si sj fi fj = Inr (k, filter (\<lambda>obs. cell_ok si sj fi fj obs k) [0..<n])"
    using k(1,2) assms by (simp add: select_def where_true_column)
  moreover have "\<forall>j<m. length (filter (\<lambda>obs. cell_ok si sj fi fj obs j) [0..<n])
                       \<le> length (filter (\<lambda>obs. cell_ok si sj fi fj obs k) [0..<n])"
    using k(2,3) cnt by simp
  moreover have "\<forall>j<k. length (filter (\<lambda>obs. cell_ok si sj fi fj obs j) [0..<n])
                       < length (filter (\<lambda>obs. cell_ok si sj fi fj obs k) [0..<n])"
    using k(2,4) cnt by simp
  ultimately show ?thesis using k(2) by blast
qed

lemma cell_ok_Some: "cell_ok si sj (Some fi) (Some fj) obs k = valid_cell si sj fi fj obs k"
  by (simp add: cell_ok_def valid_cell_def ne_fill_def)

lemma cell_ok_None: "cell_ok si sj None None obs k"
  by (simp add: cell_ok_def ne_fill_def)

text \<open>
  Claim C1. For index arrays of one shape, \<open>n\<close> observations by \<open>m \<ge> 1\<close> slots, and sentinels
  \<open>fill_i\<close> and \<open>fill_j\<close>, the selector returns a slot whose count of valid cells is at least
  the count of every slot and greater than the count of every slot before it, so the
  smallest slot among those with the maximal count, together with the observations
  valid at that slot in ascending order.
\<close>

theorem select_picks_best_slot:
  assumes "has_shape n m index_i" "has_shape n m index_j" "1 \<le> m"
  shows "\<exists>slot obs. select m index_i index_j (Some fill_i) (Some fill_j) = Inr (slot, obs)
           \<and> slot < m
           \<and> (\<forall>s<m. valid_count n index_i index_j fill_i fill_j s
                       \<le> valid_count n index_i index_j fill_i fill_j slot)
           \<and> (\<forall>s<slot. valid_count n index_i index_j fill_i fill_j s
                       < valid_count n index_i index_j fill_i fill_j slot)
           \<and> obs = filter (\<lambda>ob. valid_cell index_i index_j fill_i fill_j ob slot) [0..<n]
           \<and> sorted_wrt (<) obs"
proof -
  from assms(3) have "0 < m" by simp
  from select_general [OF assms(1,2) this, of "Some fill_i" "Some fill_j"]
  obtain k where k: "select m index_i index_j (Some fill_i) (Some fill_j)
        = Inr (k, filter (\<lambda>ob. valid_cell index_i index_j fill_i fill_j ob k) [0..<n])"
      "k < m"
      "\<forall>j<m. valid_count n index_i index_j fill_i fill_j j
              \<le> valid_count n index_i index_j fill_i fill_j k"
      "\<forall>j<k. valid_count n index_i index_j fill_i fill_j j
              < valid_count n index_i index_j fill_i fill_j k"
    unfolding cell_ok_Some valid_count_def by blast
  have "sorted_wrt (<) (filter (\<lambda>ob. valid_cell index_i index_j fill_i fill_j ob k) [0..<n])"
    by (rule sorted_wrt_filter) (rule sorted_wrt_upt)
  with k show ?thesis by blast
qed

theorem select_picks_best_slot_witness:
  "has_shape 2 2 [[5, - 1], [- 1, 7 :: int]] \<and> (1::nat) \<le> 2
   \<and> select 2 [[5, - 1], [- 1, 7]] [[5, - 1], [- 1, 7]] (Some (- 1)) (Some (- 1)) = Inr (0, [0])
   \<and> valid_count 2 [[5, - 1], [- 1, 7]] [[5, - 1], [- 1, 7]] (- 1) (- 1) 0 = 1
   \<and> valid_count 2 [[5, - 1], [- 1, 7]] [[5, - 1], [- 1, 7]] (- 1) (- 1) 1 = 1"
  using select_picks_best_slot [of 2 2 "[[5, - 1], [- 1, 7]]" "[[5, - 1], [- 1, 7]]" "- 1" "- 1"]
  by (simp add: has_shape_def select_def valid_mask_def column_sums_def argmax_def where_true_def
      ne_fill_def valid_count_def valid_cell_def upt_conv_Cons numeral_2_eq_2)

lemma select_no_valid_cell:
  assumes "has_shape n m si" "has_shape n m sj" "0 < m"
    and "\<forall>obs<n. \<forall>k<m. \<not> cell_ok si sj fi fj obs k"
  shows "select m si sj fi fj = Inr (0, [])"
proof -
  have none: "filter (\<lambda>obs. cell_ok si sj fi fj obs k) [0..<n] = []" if "k < m" for k
    using that assms(4) by (simp add: filter_empty_conv)
  from select_general [OF assms(1,2,3), of fi fj]
  obtain k where k: "select m si sj fi fj = Inr (k, filter (\<lambda>obs. cell_ok si sj fi fj obs k) [0..<n])"
      "k < m"
      "\<forall>j<k. length (filter (\<lambda>obs. cell_ok si sj fi fj obs j) [0..<n])
                 < length (filter (\<lambda>obs. cell_ok si sj fi fj obs k) [0..<n])"
    by blast
  have "k = 0"
  proof (rule ccontr)
    assume "k \<noteq> 0"
    then have "0 < k" by simp
    with k(3) have "length (filter (\<lambda>obs. cell_ok si sj fi fj obs 0) [0..<n])
                 < length (filter (\<lambda>obs. cell_ok si sj fi fj obs k) [0..<n])"
      by blast
    with none [OF k(2)] show False by simp
  qed
  with k(1,2) none show ?thesis by simp
qed

lemma select_all_valid:
  assumes "has_shape n m si" "has_shape n m sj" "0 < m"
    and "\<forall>obs<n. \<forall>k<m. cell_ok si sj fi fj obs k"
  shows "select m si sj fi fj = Inr (0, [0..<n])"
proof -
  have full: "filter (\<lambda>obs. cell_ok si sj fi fj obs k) [0..<n] = [0..<n]" if "k < m" for k
    using that assms(4) by (simp add: filter_id_conv)
  from select_general [OF assms(1,2,3), of fi fj]
  obtain k where k: "select m si sj fi fj = Inr (k, filter (\<lambda>obs. cell_ok si sj fi fj obs k) [0..<n])"
      "k < m"
      "\<forall>j<k. length (filter (\<lambda>obs. cell_ok si sj fi fj obs j) [0..<n])
                 < length (filter (\<lambda>obs. cell_ok si sj fi fj obs k) [0..<n])"
    by blast
  have "k = 0"
  proof (rule ccontr)
    assume "k \<noteq> 0"
    then have "0 < k" by simp
    with k(3) have "length (filter (\<lambda>obs. cell_ok si sj fi fj obs 0) [0..<n])
                 < length (filter (\<lambda>obs. cell_ok si sj fi fj obs k) [0..<n])"
      by blast
    with full [OF k(2)] full [OF assms(3)] show False by simp
  qed
  with k(1,2) full show ?thesis by simp
qed

lemma select_Inr_bounds:
  assumes "has_shape n m si" "has_shape n m sj" "select m si sj fi fj = Inr (k, slots)"
  shows "k < m" and "slots = filter (\<lambda>obs. cell_ok si sj fi fj obs k) [0..<n]"
proof -
  have "0 < m"
  proof (rule ccontr)
    assume "\<not> 0 < m"
    then have "select m si sj fi fj = Inl ValueError"
      by (simp add: select_def column_sums_def argmax_def)
    with assms(3) show False by simp
  qed
  from select_general [OF assms(1,2) this, of fi fj] assms(3)
  show "k < m" and "slots = filter (\<lambda>obs. cell_ok si sj fi fj obs k) [0..<n]"
    by auto
qed

lemma np_get2_nat:
  assumes "r < length a" "c < length (a ! r)"
  shows "np_get2 a (int r) (int c) = Inr (a ! r ! c)"
  using assms by (simp add: np_get2_def norm_index_def)

lemma np_get2_in_range:
  assumes "0 \<le> r" "r < int (length a)" "0 \<le> c" "c < int (length (a ! nat r))"
  shows "np_get2 a r c = Inr (a ! nat r ! nat c)"
  using assms by (simp add: np_get2_def norm_index_def)

section \<open>Properties of the Coordinate-Resolver and the Profile-Assembler\<close>

text \<open>
  Claim C2. For an observation of the selector's list and the selected slot, with the
  stored indices \<open>i\<close> and \<open>j\<close> in the range of the geographic grid, the resolver returns
  the grid values at row \<open>j\<close> and column \<open>i\<close> of the longitude and of the latitude array.
\<close>

theorem resolve_reads_row_j_column_i:
  assumes "has_shape n m index_i" "has_shape n m index_j"
    and "select m index_i index_j fill_i fill_j = Inr (slot, observations)"
    and "obs \<in> set observations"
    and "has_shape rows cols geo_lon" "has_shape rows cols geo_lat"
    and "0 \<le> index_j ! obs ! slot" "index_j ! obs ! slot < int rows"
    and "0 \<le> index_i ! obs ! slot" "index_i ! obs ! slot < int cols"
  shows "resolve index_i index_j geo_lon geo_lat obs slot
           = Inr (geo_lon ! nat (index_j ! obs ! slot) ! nat (index_i ! obs ! slot),
                  geo_lat ! nat (index_j ! obs ! slot) ! nat (index_i ! obs ! slot))"
proof -
  from select_Inr_bounds [OF assms(1,2,3)] assms(4) have b: "slot < m" "obs < n"
    by auto
  have i: "np_get2 index_i (int obs) (int slot) = Inr (index_i ! obs ! slot)"
    using assms(1) b by (intro np_get2_nat) (simp_all add: has_shape_def)
  have j: "np_get2 index_j (int obs) (int slot) = Inr (index_j ! obs ! slot)"
    using assms(2) b by (intro np_get2_nat) (simp_all add: has_shape_def)
  have r: "nat (index_j ! obs ! slot) < rows"
    using assms(7,8) by simp
  have lon: "np_get2 geo_lon (index_j ! obs ! slot) (index_i ! obs ! slot)
      = Inr (geo_lon ! nat (index_j ! obs ! slot) ! nat (index_i ! obs ! slot))"
    using assms(5,7-10) r by (intro np_get2_in_range) (simp_all add: has_shape_def)
  have lat: "np_get2 geo_lat (index_j ! obs ! slot) (index_i ! obs ! slot)
      = Inr (geo_lat ! nat (index_j ! obs ! slot) ! nat (index_i ! obs ! slot))"
    using assms(6,7-10) r by (intro np_get2_in_range) (simp_all add: has_shape_def)
  show ?thesis
    by (simp add: resolve_def i j lon lat)
qed

subsection \<open>Evaluation on the example datasets\<close>

lemmas eval_defs = has_shape_def wf_dataset_def select_def valid_mask_def column_sums_def argmax_def
  where_true_def ne_fill_def upt_conv_Cons numeral_2_eq_2 resolve_def np_get2_def norm_index_def
  get_fill_i_def get_fill_j_def get_tfill_def attrs_get_def fill_key_def



theorem resolve_reads_row_j_column_i_witness:
  "has_shape 2 2 (si_values scenario_a) \<and> has_shape 2 2 (sj_values scenario_a)
   \<and> select 2 (si_values scenario_a) (sj_values scenario_a) (Some (- 1)) (Some (- 1)) = Inr (0, [0])
   \<and> (0::nat) \<in> set [0]
   \<and> has_shape 2 2 (lon2_values scenario_a) \<and> has_shape 2 2 (lat2_values scenario_a)
   \<and> si_values scenario_a ! 0 ! 0 = 1 \<and> sj_values scenario_a ! 0 ! 0 = 0
   \<and> resolve (si_values scenario_a) (sj_values scenario_a)
        (lon2_values scenario_a) (lat2_values scenario_a) 0 0 = Inr (Finite 121, Finite 11)"
  using resolve_reads_row_j_column_i [of 2 2 "si_values scenario_a" "sj_values scenario_a"
      "Some (- 1)" "Some (- 1)" 0 "[0]" 0 2 2 "lon2_values scenario_a" "lat2_values scenario_a"]
  by (simp add: scenario_a_def eval_defs)

subsection \<open>The loop over the selected observations\<close>

lemma collect_Inr_map:
  assumes "\<forall>x\<in>set xs. f x = Inr (g x)"
  shows "collect f xs = Inr (map g xs)"
  using assms by (induction xs) simp_all

lemma collect_total:
  assumes "\<forall>x\<in>set xs. \<not> isl (f x)"
  shows "collect f xs = Inr (map (\<lambda>x. projr (f x)) xs)"
proof (rule collect_Inr_map, rule ballI)
  fix x assume "x \<in> set xs"
  with assms have "\<not> isl (f x)" by simp
  then show "f x = Inr (projr (f x))" by (cases "f x") simp_all
qed

lemma isel_slice:
  assumes "length a = n" "\<forall>p\<in>set a. has_shape levels m p" "obs < n" "k < m"
  shows "isel_ni_nk n m a obs k = Inr (level_slice levels a obs k)"
proof -
  from assms(1,2,3) have "length (a ! obs) = levels"
    by (simp add: has_shape_def)
  then have "map (\<lambda>level. level ! k) (a ! obs) = map (\<lambda>level. a ! obs ! level ! k) [0..<levels]"
    by (intro nth_equalityI) simp_all
  with assms(3,4) show ?thesis
    by (simp add: isel_ni_nk_def level_slice_def)
qed

lemma plot_one_returns:
  assumes "wf_dataset ds" "obs < ni ds" "k < nk ds"
    and "\<not> isl (resolve (si_values ds) (sj_values ds) (lon2_values ds) (lat2_values ds) obs k)"
  shows "\<exists>lbl. plot_one fmt2 ds k obs =
           Inr \<lparr>temp_profile = level_slice (nj ds) (sst_values ds) obs k,
                plev_profile = level_slice (nj ds) (press_values ds) obs k,
                label = lbl\<rparr>"
proof -
  have t: "isel_ni_nk (ni ds) (nk ds) (sst_values ds) obs k
             = Inr (level_slice (nj ds) (sst_values ds) obs k)"
    using assms(1,2,3) by (intro isel_slice) (simp_all add: wf_dataset_def)
  have p: "isel_ni_nk (ni ds) (nk ds) (press_values ds) obs k
             = Inr (level_slice (nj ds) (press_values ds) obs k)"
    using assms(1,2,3) by (intro isel_slice) (simp_all add: wf_dataset_def)
  from assms(4) obtain lon lat where
    "resolve (si_values ds) (sj_values ds) (lon2_values ds) (lat2_values ds) obs k = Inr (lon, lat)"
    by (cases "resolve (si_values ds) (sj_values ds) (lon2_values ds) (lat2_values ds) obs k") auto
  then show ?thesis
    by (simp add: plot_one_def t p)
qed

lemma assemble_returns:
  assumes "wf_dataset ds" "k < nk ds" "\<forall>obs\<in>set slots. obs < ni ds"
    and "\<forall>obs\<in>set slots.
           \<not> isl (resolve (si_values ds) (sj_values ds) (lon2_values ds) (lat2_values ds) obs k)"
  shows "\<exists>profiles. assemble fmt2 ds k slots = Inr profiles
           \<and> map temp_profile profiles = map (\<lambda>obs. level_slice (nj ds) (sst_values ds) obs k) slots
           \<and> map plev_profile profiles = map (\<lambda>obs. level_slice (nj ds) (press_values ds) obs k) slots"
proof -
  have "\<forall>obs\<in>set slots. \<exists>lbl. plot_one fmt2 ds k obs =
           Inr \<lparr>temp_profile = level_slice (nj ds) (sst_values ds) obs k,
                plev_profile = level_slice (nj ds) (press_values ds) obs k,
                label = lbl\<rparr>"
    using assms by (intro ballI plot_one_returns) simp_all
  then obtain lbl where "\<forall>obs\<in>set slots. plot_one fmt2 ds k obs =
           Inr \<lparr>temp_profile = level_slice (nj ds) (sst_values ds) obs k,
                plev_profile = level_slice (nj ds) (press_values ds) obs k,
                label = lbl obs\<rparr>"
    by metis
  then have "assemble fmt2 ds k slots =
      Inr (map (\<lambda>obs. \<lparr>temp_profile = level_slice (nj ds) (sst_values ds) obs k,
                plev_profile = level_slice (nj ds) (press_values ds) obs k,
                label = lbl obs\<rparr>) slots)"
    unfolding assemble_def by (rule collect_Inr_map)
  then show ?thesis by (simp add: comp_def)
qed

lemma wf_select_bounds:
  assumes "wf_dataset ds"
    and "select (nk ds) (si_values ds) (sj_values ds) fi fj = Inr (k, slots)"
  shows "k < nk ds" and "\<forall>obs\<in>set slots. obs < ni ds"
proof -
  have s: "has_shape (ni ds) (nk ds) (si_values ds)" "has_shape (ni ds) (nk ds) (sj_values ds)"
    using assms(1) by (simp_all add: wf_dataset_def)
  from select_Inr_bounds [OF s assms(2)]
  show "k < nk ds" and "\<forall>obs\<in>set slots. obs < ni ds"
    by auto
qed

text \<open>
  Claim C6. For a selection of the selector, and when the coordinate of every selected
  observation resolves, the assembler returns one profile per selected observation, in
  the order of the selector's list, and the temperature and pressure sequences of each
  profile are the values of the two arrays at that observation and the selected slot,
  along the level axis, unchanged.
\<close>

theorem assemble_passes_slices_through:
  assumes "wf_dataset ds"
    and "select (nk ds) (si_values ds) (sj_values ds) fi fj = Inr (k_max, slots)"
    and "\<forall>obs\<in>set slots.
           \<not> isl (resolve (si_values ds) (sj_values ds) (lon2_values ds) (lat2_values ds) obs k_max)"
  shows "\<exists>profiles. assemble fmt2 ds k_max slots = Inr profiles
           \<and> length profiles = length slots
           \<and> (\<forall>n<length slots.
                 temp_profile (profiles ! n) = level_slice (nj ds) (sst_values ds) (slots ! n) k_max
               \<and> plev_profile (profiles ! n) = level_slice (nj ds) (press_values ds) (slots ! n) k_max)"
proof -
  from assemble_returns [OF assms(1) wf_select_bounds [OF assms(1,2)] assms(3), of fmt2]
  obtain profiles where p: "assemble fmt2 ds k_max slots = Inr profiles"
    "map temp_profile profiles = map (\<lambda>obs. level_slice (nj ds) (sst_values ds) obs k_max) slots"
    "map plev_profile profiles = map (\<lambda>obs. level_slice (nj ds) (press_values ds) obs k_max) slots"
    by blast
  from p(2) have len: "length profiles = length slots"
    by (rule map_eq_imp_length_eq)
  have "temp_profile (profiles ! n) = level_slice (nj ds) (sst_values ds) (slots ! n) k_max
      \<and> plev_profile (profiles ! n) = level_slice (nj ds) (press_values ds) (slots ! n) k_max"
    if "n < length slots" for n
  proof -
    have "map temp_profile profiles ! n = level_slice (nj ds) (sst_values ds) (slots ! n) k_max"
      using that by (simp only: p(2)) simp
    moreover have "map plev_profile profiles ! n = level_slice (nj ds) (press_values ds) (slots ! n) k_max"
      using that by (simp only: p(3)) simp
    ultimately show ?thesis using that len by simp
  qed
  with p(1) len show ?thesis by blast
qed

theorem assemble_passes_slices_through_witness:
  "wf_dataset scenario_a
   \<and> select (nk scenario_a) (si_values scenario_a) (sj_values scenario_a)
        (Some (- 1)) (Some (- 1)) = Inr (0, [0])
   \<and> resolve (si_values scenario_a) (sj_values scenario_a)
         (lon2_values scenario_a) (lat2_values scenario_a) 0 0 = Inr (Finite 121, Finite 11)
   \<and> assemble (\<lambda>x. ''?'') scenario_a 0 [0] =
        Inr [\<lparr>temp_profile = [Finite 28, Finite 20], plev_profile = [Finite 5, Finite 50],
              label = ''?,?''\<rparr>]
   \<and> level_slice (nj scenario_a) (sst_values scenario_a) 0 0 = [Finite 28, Finite 20]
   \<and> level_slice (nj scenario_a) (press_values scenario_a) 0 0 = [Finite 5, Finite 50]"
  using assemble_passes_slices_through [of scenario_a "Some (- 1)" "Some (- 1)" 0 "[0]" "\<lambda>x. ''?''"]
  by (simp add: scenario_a_def eval_defs assemble_def plot_one_def isel_ni_nk_def level_slice_def)

section \<open>Properties of the fill-value lookup\<close>

lemma wf_shapes:
  assumes "wf_dataset ds"
  shows "has_shape (ni ds) (nk ds) (si_values ds)" "has_shape (ni ds) (nk ds) (sj_values ds)"
    and "length (time_values ds) = nk ds"
  using assms by (simp_all add: wf_dataset_def)

lemma mask_cell:
  assumes "wf_dataset ds" "obs < ni ds" "k < nk ds"
  shows "valid_mask (si_values ds) (sj_values ds) fi fj ! obs ! k
           = cell_ok (si_values ds) (sj_values ds) fi fj obs k"
  using wf_shapes(1,2) [OF assms(1)] assms(2,3) by (rule valid_mask_shape(2))

text \<open>
  Claim C5. When the attribute \<open>_Fillvalue\<close> of an index array is absent, no cell of that
  array counts as sentinel: the validity of a cell is decided by the other array alone.
  When it is absent on both, every cell is valid and the selector returns slot 0 with
  every observation; it does not raise.
\<close>

theorem absent_fill_attribute_is_permissive:
  assumes "wf_dataset ds" "1 \<le> nk ds"
  shows "(si_attrs ds ''_Fillvalue'' = None \<longrightarrow>
            (\<forall>obs<ni ds. \<forall>k<nk ds.
               valid_mask (si_values ds) (sj_values ds) (get_fill_i ds) (get_fill_j ds) ! obs ! k
                 = ne_fill (sj_values ds ! obs ! k) (get_fill_j ds)))
       \<and> (sj_attrs ds ''_Fillvalue'' = None \<longrightarrow>
            (\<forall>obs<ni ds. \<forall>k<nk ds.
               valid_mask (si_values ds) (sj_values ds) (get_fill_i ds) (get_fill_j ds) ! obs ! k
                 = ne_fill (si_values ds ! obs ! k) (get_fill_i ds)))
       \<and> (si_attrs ds ''_Fillvalue'' = None \<and> sj_attrs ds ''_Fillvalue'' = None \<longrightarrow>
            (\<forall>obs<ni ds. \<forall>k<nk ds.
               valid_mask (si_values ds) (sj_values ds) (get_fill_i ds) (get_fill_j ds) ! obs ! k)
            \<and> select (nk ds) (si_values ds) (sj_values ds) (get_fill_i ds) (get_fill_j ds)
                  = Inr (0, [0..<ni ds]))"
proof (intro conjI impI)
  assume "si_attrs ds ''_Fillvalue'' = None"
  then have "get_fill_i ds = None"
    by (simp add: get_fill_i_def attrs_get_def fill_key_def)
  then show "\<forall>obs<ni ds. \<forall>k<nk ds.
               valid_mask (si_values ds) (sj_values ds) (get_fill_i ds) (get_fill_j ds) ! obs ! k
                 = ne_fill (sj_values ds ! obs ! k) (get_fill_j ds)"
    using assms(1) by (simp add: mask_cell cell_ok_def ne_fill_def)
next
  assume "sj_attrs ds ''_Fillvalue'' = None"
  then have "get_fill_j ds = None"
    by (simp add: get_fill_j_def attrs_get_def fill_key_def)
  then show "\<forall>obs<ni ds. \<forall>k<nk ds.
               valid_mask (si_values ds) (sj_values ds) (get_fill_i ds) (get_fill_j ds) ! obs ! k
                 = ne_fill (si_values ds ! obs ! k) (get_fill_i ds)"
    using assms(1) by (simp add: mask_cell cell_ok_def ne_fill_def)
next
  assume a: "si_attrs ds ''_Fillvalue'' = None \<and> sj_attrs ds ''_Fillvalue'' = None"
  then have n: "get_fill_i ds = None" "get_fill_j ds = None"
    by (simp_all add: get_fill_i_def get_fill_j_def attrs_get_def fill_key_def)
  show "\<forall>obs<ni ds. \<forall>k<nk ds.
               valid_mask (si_values ds) (sj_values ds) (get_fill_i ds) (get_fill_j ds) ! obs ! k"
    using assms(1) by (simp add: n mask_cell cell_ok_None)
  from assms(2) have "0 < nk ds" by simp
  with wf_shapes(1,2) [OF assms(1)]
  show "select (nk ds) (si_values ds) (sj_values ds) (get_fill_i ds) (get_fill_j ds)
          = Inr (0, [0..<ni ds])"
    unfolding n by (rule select_all_valid) (simp add: cell_ok_None)
qed

theorem absent_fill_attribute_is_permissive_witness:
  "wf_dataset scenario_other_key \<and> 1 \<le> nk scenario_other_key
   \<and> si_attrs scenario_other_key ''_Fillvalue'' = None
   \<and> sj_attrs scenario_other_key ''_Fillvalue'' = None
   \<and> valid_mask (si_values scenario_other_key) (sj_values scenario_other_key)
        (get_fill_i scenario_other_key) (get_fill_j scenario_other_key)
        = [[True, True], [True, True]]
   \<and> select (nk scenario_other_key) (si_values scenario_other_key) (sj_values scenario_other_key)
        (get_fill_i scenario_other_key) (get_fill_j scenario_other_key) = Inr (0, [0, 1])"
  using absent_fill_attribute_is_permissive [of scenario_other_key]
  by (simp add: scenario_other_key_def scenario_a_def eval_defs)

lemma decode_time_None:
  "decode_time None tv =
     (case fractional_year_to_datetime tv of Inl e \<Rightarrow> Inl e | Inr d \<Rightarrow> Inr (Some d))"
  by (simp add: decode_time_def)

lemma lookup_other_key:
  assumes "key \<noteq> ''_Fillvalue''"
  shows "attrs_get (attrs(key := v)) fill_key = attrs_get attrs fill_key"
  using assms by (simp add: attrs_get_def fill_key_def)

lemma main_other_key:
  assumes "key \<noteq> ''_Fillvalue''"
  shows "main fmt2 strftime prefix
           (ds\<lparr>time_attrs := (time_attrs ds)(key := tv),
               si_attrs := (si_attrs ds)(key := iv),
               sj_attrs := (sj_attrs ds)(key := jv)\<rparr>)
         = main fmt2 strftime prefix ds"
proof -
  define ds' where "ds' = ds\<lparr>time_attrs := (time_attrs ds)(key := tv),
               si_attrs := (si_attrs ds)(key := iv),
               sj_attrs := (sj_attrs ds)(key := jv)\<rparr>"
  have fills: "get_tfill ds' = get_tfill ds" "get_fill_i ds' = get_fill_i ds"
    "get_fill_j ds' = get_fill_j ds"
    by (simp_all add: ds'_def get_tfill_def get_fill_i_def get_fill_j_def
          lookup_other_key [OF assms])
  have vals: "nk ds' = nk ds" "si_values ds' = si_values ds" "sj_values ds' = sj_values ds"
    "time_values ds' = time_values ds"
    by (simp_all add: ds'_def)
  have times: "decode_times ds' = decode_times ds"
    by (simp only: decode_times_def fills vals)
  have arrays: "ni ds' = ni ds" "sst_values ds' = sst_values ds"
    "press_values ds' = press_values ds" "lon2_values ds' = lon2_values ds"
    "lat2_values ds' = lat2_values ds"
    by (simp_all add: ds'_def)
  have "plot_one fmt2 ds' = plot_one fmt2 ds"
    unfolding plot_one_def vals arrays ..
  then have loop: "assemble fmt2 ds' = assemble fmt2 ds"
    unfolding assemble_def by simp
  have "main fmt2 strftime prefix ds' = main fmt2 strftime prefix ds"
    unfolding main_def fills vals times loop ..
  then show ?thesis
    by (simp only: ds'_def)
qed

text \<open>
  Claim C10. The fill value of the time array and of both index arrays is what the
  attribute dictionary holds under the key \<open>_Fillvalue\<close>, \<open>None\<close> when it holds nothing
  there. What is declared under any other key has no effect on the run. For a dataset
  none of whose three attribute dictionaries has the key \<open>_Fillvalue\<close>, the three lookups
  give \<open>None\<close>, every cell of the index arrays is valid, and every time entry is passed to
  the decoder.
\<close>

theorem fill_lookup_uses_key_Fillvalue:
  "get_tfill ds = time_attrs ds ''_Fillvalue''
   \<and> get_fill_i ds = si_attrs ds ''_Fillvalue''
   \<and> get_fill_j ds = sj_attrs ds ''_Fillvalue''
   \<and> (key \<noteq> ''_Fillvalue'' \<longrightarrow>
         main fmt2 strftime prefix
           (ds\<lparr>time_attrs := (time_attrs ds)(key := tv),
               si_attrs := (si_attrs ds)(key := iv),
               sj_attrs := (sj_attrs ds)(key := jv)\<rparr>)
         = main fmt2 strftime prefix ds)
   \<and> (wf_dataset ds \<and> ''_Fillvalue'' \<notin> dom (time_attrs ds)
        \<and> ''_Fillvalue'' \<notin> dom (si_attrs ds) \<and> ''_Fillvalue'' \<notin> dom (sj_attrs ds) \<longrightarrow>
         get_tfill ds = None \<and> get_fill_i ds = None \<and> get_fill_j ds = None
         \<and> (\<forall>obs<ni ds. \<forall>k<nk ds.
              valid_mask (si_values ds) (sj_values ds) (get_fill_i ds) (get_fill_j ds) ! obs ! k)
         \<and> decode_times ds =
             collect (\<lambda>tv. case fractional_year_to_datetime tv of
                              Inl e \<Rightarrow> Inl e | Inr d \<Rightarrow> Inr (Some d)) (time_values ds))"
proof -
  have reads: "get_tfill ds = time_attrs ds ''_Fillvalue''"
    "get_fill_i ds = si_attrs ds ''_Fillvalue''" "get_fill_j ds = sj_attrs ds ''_Fillvalue''"
    by (simp_all add: get_tfill_def get_fill_i_def get_fill_j_def attrs_get_def fill_key_def)
  have absent: "get_tfill ds = None \<and> get_fill_i ds = None \<and> get_fill_j ds = None
         \<and> (\<forall>obs<ni ds. \<forall>k<nk ds.
              valid_mask (si_values ds) (sj_values ds) (get_fill_i ds) (get_fill_j ds) ! obs ! k)
         \<and> decode_times ds =
             collect (\<lambda>tv. case fractional_year_to_datetime tv of
                              Inl e \<Rightarrow> Inl e | Inr d \<Rightarrow> Inr (Some d)) (time_values ds)"
    if h: "wf_dataset ds \<and> ''_Fillvalue'' \<notin> dom (time_attrs ds)
        \<and> ''_Fillvalue'' \<notin> dom (si_attrs ds) \<and> ''_Fillvalue'' \<notin> dom (sj_attrs ds)"
  proof -
    from h have n: "get_tfill ds = None" "get_fill_i ds = None" "get_fill_j ds = None"
      by (auto simp: reads)
    from h have "wf_dataset ds" ..
    then have "\<forall>obs<ni ds. \<forall>k<nk ds.
              valid_mask (si_values ds) (sj_values ds) (get_fill_i ds) (get_fill_j ds) ! obs ! k"
      by (simp add: n mask_cell cell_ok_None)
    moreover have "decode_times ds =
             collect (\<lambda>tv. case fractional_year_to_datetime tv of
                              Inl e \<Rightarrow> Inl e | Inr d \<Rightarrow> Inr (Some d)) (time_values ds)"
      by (simp add: decode_times_def n decode_time_None [abs_def])
    ultimately show ?thesis using n by simp
  qed
  from reads main_other_key [where key = key and ds = ds and tv = tv and iv = iv and jv = jv] absent show ?thesis
    by blast
qed

theorem fill_lookup_uses_key_Fillvalue_witness:
  "get_tfill scenario_a = Some (Finite (- 9999))
   \<and> get_fill_i scenario_a = Some (- 1) \<and> get_fill_j scenario_a = Some (- 1)
   \<and> get_fill_i (scenario_a\<lparr>si_attrs := (si_attrs scenario_a)(''fill_value'' \<mapsto> 7)\<rparr>) = Some (- 1)
   \<and> wf_dataset scenario_other_key
   \<and> ''_Fillvalue'' \<notin> dom (time_attrs scenario_other_key)
   \<and> ''_Fillvalue'' \<notin> dom (si_attrs scenario_other_key)
   \<and> ''_Fillvalue'' \<notin> dom (sj_attrs scenario_other_key)
   \<and> ''fill_value'' \<in> dom (time_attrs scenario_other_key)
   \<and> ''fill_value'' \<in> dom (si_attrs scenario_other_key)
   \<and> ''fill_value'' \<in> dom (sj_attrs scenario_other_key)
   \<and> get_tfill scenario_other_key = None
   \<and> get_fill_i scenario_other_key = None \<and> get_fill_j scenario_other_key = None
   \<and> valid_mask (si_values scenario_other_key) (sj_values scenario_other_key)
        (get_fill_i scenario_other_key) (get_fill_j scenario_other_key)
        = [[True, True], [True, True]]
   \<and> decode_times scenario_other_key = Inl ValueError"
  using fill_lookup_uses_key_Fillvalue [of scenario_other_key]
    fill_lookup_uses_key_Fillvalue [of scenario_a]
  by (simp add: scenario_other_key_def scenario_a_def eval_defs decode_times_def decode_time_def
      fractional_year_to_datetime_def trunc_rat_def datetime_jan1_def)

section \<open>Properties of \<open>main\<close>\<close>

lemma decode_times_total:
  assumes "\<forall>tv\<in>set (time_values ds). \<not> isl (decode_time (get_tfill ds) tv)"
  shows "decode_times ds = Inr (map (\<lambda>tv. projr (decode_time (get_tfill ds) tv)) (time_values ds))"
  unfolding decode_times_def using assms by (rule collect_total)

lemma str_nat_0: "str_nat 0 = ''0''"
  by simp

text \<open>
  Claim C4. For a dataset with at least one slot in which every cell of both index arrays
  equals its fill value, and whose time entries are each the fill value or decodable, the
  selector returns slot 0 with no observation, and \<open>main\<close> returns: it plots no curve and
  the title reads \<open>0 profiles\<close>.
\<close>

theorem all_sentinel_gives_empty_plot:
  assumes "wf_dataset ds" "1 \<le> nk ds"
    and "get_fill_i ds = Some fi" "get_fill_j ds = Some fj"
    and "\<forall>row\<in>set (si_values ds). \<forall>v\<in>set row. v = fi"
    and "\<forall>row\<in>set (sj_values ds). \<forall>v\<in>set row. v = fj"
    and "\<forall>tv\<in>set (time_values ds). \<not> isl (decode_time (get_tfill ds) tv)"
  shows "select (nk ds) (si_values ds) (sj_values ds) (get_fill_i ds) (get_fill_j ds) = Inr (0, [])
       \<and> main fmt2 strftime prefix ds =
           Inr \<lparr>curves = [],
                title = prefix @ '': 0 profiles on ''
                          @ date_str strftime (projr (decode_time (get_tfill ds) (time_values ds ! 0))),
                saved = [prefix @ ''_profiles.pdf'', prefix @ ''_profiles.png'']\<rparr>"
proof -
  note s = wf_shapes [OF assms(1)]
  from assms(2) have m: "0 < nk ds" by simp
  have "\<forall>obs<ni ds. \<forall>k<nk ds. \<not> cell_ok (si_values ds) (sj_values ds) (Some fi) (Some fj) obs k"
  proof (intro allI impI)
    fix obs k assume b: "obs < ni ds" "k < nk ds"
    with s(1) have "si_values ds ! obs \<in> set (si_values ds)" "k < length (si_values ds ! obs)"
      by (simp_all add: has_shape_def)
    with assms(5) have "si_values ds ! obs ! k = fi"
      by simp
    then show "\<not> cell_ok (si_values ds) (sj_values ds) (Some fi) (Some fj) obs k"
      by (simp add: cell_ok_def ne_fill_def)
  qed
  with s(1,2) m have sel: "select (nk ds) (si_values ds) (sj_values ds) (Some fi) (Some fj) = Inr (0, [])"
    by (rule select_no_valid_cell)
  have t: "py_nth (map (\<lambda>tv. projr (decode_time (get_tfill ds) tv)) (time_values ds)) 0
             = Inr (projr (decode_time (get_tfill ds) (time_values ds ! 0)))"
    using m s(3) by (simp add: py_nth_def)
  have "main fmt2 strftime prefix ds =
           Inr \<lparr>curves = [],
                title = prefix @ '': 0 profiles on ''
                          @ date_str strftime (projr (decode_time (get_tfill ds) (time_values ds ! 0))),
                saved = [prefix @ ''_profiles.pdf'', prefix @ ''_profiles.png'']\<rparr>"
    by (simp add: main_def decode_times_total [OF assms(7)] assms(3,4) sel assemble_def t
        make_title_def del: str_nat.simps add: str_nat_0)
  with sel assms(3,4) show ?thesis by simp
qed

theorem all_sentinel_gives_empty_plot_witness:
  "wf_dataset scenario_c \<and> 1 \<le> nk scenario_c
   \<and> get_fill_i scenario_c = Some (- 1) \<and> get_fill_j scenario_c = Some (- 1)
   \<and> si_values scenario_c = [[- 1, - 1], [- 1, - 1]]
   \<and> sj_values scenario_c = [[- 1, - 1], [- 1, - 1]]
   \<and> decode_times scenario_c = Inr [None, Some 63855475200000000]
   \<and> main (\<lambda>x. ''?'') (\<lambda>d. ''date'') ''storm'' scenario_c =
        Inr \<lparr>curves = [], title = ''storm: 0 profiles on unknown_date'',
             saved = [''storm_profiles.pdf'', ''storm_profiles.png'']\<rparr>"
proof -
  note t = decode_2024_half
  have d: "decode_times scenario_c = Inr [None, Some 63855475200000000]"
    by (simp add: scenario_c_def scenario_a_def decode_times_def decode_time_def t
        get_tfill_def attrs_get_def fill_key_def)
  have ok: "\<forall>tv\<in>set (time_values scenario_c). \<not> isl (decode_time (get_tfill scenario_c) tv)"
    by (simp add: scenario_c_def scenario_a_def decode_time_def t
        get_tfill_def attrs_get_def fill_key_def)
  have w: "wf_dataset scenario_c" "1 \<le> nk scenario_c"
    "get_fill_i scenario_c = Some (- 1)" "get_fill_j scenario_c = Some (- 1)"
    "\<forall>row\<in>set (si_values scenario_c). \<forall>v\<in>set row. v = - 1"
    "\<forall>row\<in>set (sj_values scenario_c). \<forall>v\<in>set row. v = - 1"
    by (simp_all add: scenario_c_def scenario_a_def eval_defs)
  from all_sentinel_gives_empty_plot [OF w ok, of "\<lambda>x. ''?''" "\<lambda>d. ''date''" "''storm''"]
  have "main (\<lambda>x. ''?'') (\<lambda>d. ''date'') ''storm'' scenario_c =
        Inr \<lparr>curves = [], title = ''storm: 0 profiles on unknown_date'',
             saved = [''storm_profiles.pdf'', ''storm_profiles.png'']\<rparr>"
    by (simp add: scenario_c_def scenario_a_def decode_time_def date_str_def
        get_tfill_def attrs_get_def fill_key_def)
  moreover have "si_values scenario_c = [[- 1, - 1], [- 1, - 1]]"
    "sj_values scenario_c = [[- 1, - 1], [- 1, - 1]]"
    by (simp_all add: scenario_c_def)
  ultimately show ?thesis using w(1-4) d by simp
qed





text \<open>
  A fill value that is \<open>nan\<close> equals no entry, so it marks nothing: an entry \<open>nan\<close> is
  passed to the decoder, which raises.
\<close>

lemma nan_fill_matches_nothing: "decode_time (Some NaN) NaN = Inl ValueError"
  by (simp add: decode_time_def fractional_year_to_datetime_def)

end
